theory Spec2Isabelle
  imports Main
begin

unbundle bit_operations_syntax

section \<open>nb-logger: a leveled text logger (logger.go)\<close>

text \<open>
  Go's \<open>int\<close> is a 64-bit two's-complement integer. It is modelled by \<open>int\<close> with the
  wrap-around written out (\<open>wrap64\<close>) at every operation of the source that can leave
  the range; \<open>[]byte\<close> and \<open>string\<close> are both \<open>char list\<close> (a \<open>char\<close> is a byte).
\<close>

type_synonym bytes = string

definition wrap64 :: "int \<Rightarrow> int" where
  "wrap64 x = (x + 2 ^ 63) mod 2 ^ 64 - 2 ^ 63"

definition int64 :: "int \<Rightarrow> bool" where
  "int64 x = (- (2 ^ 63) \<le> x \<and> x < 2 ^ 63)"

text \<open>Go's \<open>/\<close> on integers truncates towards zero.\<close>

definition quo :: "int \<Rightarrow> int \<Rightarrow> int" where
  "quo a b = sgn a * sgn b * (\<bar>a\<bar> div \<bar>b\<bar>)"

text \<open>The conversion \<open>byte(x)\<close> keeps the low eight bits.\<close>

definition byte :: "int \<Rightarrow> char" where
  "byte x = char_of x"

datatype error =
    FileCreationFail \<comment> \<open>\<open>errors.New("file creation fail")\<close>\<close>
  | IndexOutOfRange \<comment> \<open>run-time panic: index out of range\<close>
  | MakechanSize \<comment> \<open>run-time panic: makechan: size out of range\<close>
  | Blocked \<comment> \<open>the goroutine cannot proceed in this state\<close>

definition thenE :: "error + 'a \<Rightarrow> ('a \<Rightarrow> error + 'b) \<Rightarrow> error + 'b" where
  "thenE r f = (case r of Inl e \<Rightarrow> Inl e | Inr x \<Rightarrow> f x)"

subsection \<open>Constants (lines 24-47)\<close>

definition Trace :: int where "Trace = 0"
definition Debug :: int where "Debug = 1"
definition Info :: int where "Info = 2"
definition Warn :: int where "Warn = 3"
definition Error :: int where "Error = 4"

definition Ldate :: int where "Ldate = 1"
definition Ltime :: int where "Ltime = 2"
definition Lmicroseconds :: int where "Lmicroseconds = 4"
definition Llongfile :: int where "Llongfile = 8"
definition Lshortfile :: int where "Lshortfile = 16"
definition LUTC :: int where "LUTC = 32"
definition Lblocking :: int where "Lblocking = 64"
definition Lstdout :: int where "Lstdout = 128"
definition LstdFlags :: int where "LstdFlags = Ldate OR Ltime"

text \<open>The command tags \<open>write\<close> and \<open>exit\<close> (\<open>write\<close> is a reserved word here).\<close>

definition cmd_write :: int where "cmd_write = 0"
definition cmd_exit :: int where "cmd_exit = 1"

text \<open>\<open>levelStringMap\<close>: a Go map; a missing key reads as the empty string.\<close>

definition levelStringMap :: "int \<rightharpoonup> string" where
  "levelStringMap =
     [Trace \<mapsto> ''[TRACE] '', Debug \<mapsto> ''[DEBUG] '', Info \<mapsto> ''[INFO]  '',
      Warn \<mapsto> ''[WARN]  '', Error \<mapsto> ''[ERROR] '']"

definition levelString :: "int \<Rightarrow> string" where
  "levelString level = (case levelStringMap level of None \<Rightarrow> [] | Some s \<Rightarrow> s)"

subsection \<open>itoa (lines 116-130)\<close>

text \<open>
  The loop of \<open>itoa\<close> over the scratch array \<open>b\<close>, its index \<open>bp\<close>, the number \<open>i\<close>
  and the width \<open>wid\<close>. An index outside the array is the run-time panic. The
  array write is the only place the loop can fail, and \<open>bp\<close> falls by one each
  round, so the loop ends after at most \<open>bp + 1\<close> rounds.
\<close>

function itoa_loop :: "bytes \<Rightarrow> int \<Rightarrow> int \<Rightarrow> int \<Rightarrow> error + (bytes \<times> int \<times> int)" where
  "itoa_loop b bp i wid =
     (if 10 \<le> i \<or> 1 < wid then
        (let wid' = wrap64 (wid - 1);
             q = quo i 10
         in if bp < 0 \<or> int (length b) \<le> bp then Inl IndexOutOfRange
            else itoa_loop (b[nat bp := byte (wrap64 (wrap64 (48 + i) - wrap64 (q * 10)))])
                   (bp - 1) q wid')
      else Inr (b, bp, i))"
  by pat_completeness auto
termination
  by (relation "measure (\<lambda>(b, bp, i, wid). nat (bp + 1))") auto

declare itoa_loop.simps [simp del]

definition itoa :: "bytes \<Rightarrow> int \<Rightarrow> int \<Rightarrow> error + bytes" where
  "itoa buf i wid =
     (case itoa_loop (replicate 20 (CHR 0x00)) 19 i wid of
        Inl e \<Rightarrow> Inl e
      | Inr (b, bp, i') \<Rightarrow>
          if bp < 0 \<or> int (length b) \<le> bp then Inl IndexOutOfRange
          else Inr (buf @ drop (nat bp) (b[nat bp := byte (wrap64 (48 + i'))])))"

text \<open>The words of the specification: a decimal numeral, left-padded with zeros.\<close>

definition digit :: "nat \<Rightarrow> char" where
  "digit d = char_of (48 + d)"

function decimal :: "nat \<Rightarrow> string" where
  "decimal n = (if n < 10 then [digit n] else decimal (n div 10) @ [digit (n mod 10)])"
  by pat_completeness auto
termination
  by (relation "measure id") auto

declare decimal.simps [simp del]

definition zero_pad :: "nat \<Rightarrow> string \<Rightarrow> string" where
  "zero_pad w s = replicate (w - length s) (CHR ''0'') @ s"

subsection \<open>Time values\<close>

text \<open>
  \<open>time.Time\<close> belongs to Go's library. The model keeps what \<open>formatHeader\<close> reads of
  it: the calendar and clock fields in the time's own location (\<open>wall\<close>), the same
  instant's fields in UTC (\<open>utc\<close>), and the nanoseconds within the second. \<open>UTC()\<close>
  returns the instant with its location set to UTC.
\<close>

record clockface =
  year :: int
  month :: int
  day :: int
  hour :: int
  minute :: int
  second :: int

record gotime =
  wall :: clockface
  utc :: clockface
  nanosecond :: int

definition UTC :: "gotime \<Rightarrow> gotime" where
  "UTC t = t\<lparr>wall := utc t\<rparr>"

definition Date :: "gotime \<Rightarrow> int \<times> int \<times> int" where
  "Date t = (year (wall t), month (wall t), day (wall t))"

definition Clock :: "gotime \<Rightarrow> int \<times> int \<times> int" where
  "Clock t = (hour (wall t), minute (wall t), second (wall t))"

definition Nanosecond :: "gotime \<Rightarrow> int" where
  "Nanosecond t = nanosecond t"

subsection \<open>The sink, the channel and the logger (lines 49-61)\<close>

text \<open>
  An \<open>io.Writer\<close> is a sink that holds the buffers written to it, in order; a broken
  sink refuses every write with an error. \<open>io.MultiWriter\<close> writes to its sinks in
  turn and stops at the first error.
\<close>

record sink =
  data :: "bytes list"
  broken :: bool

definition sink_Write :: "sink \<Rightarrow> bytes \<Rightarrow> sink \<times> bool" where
  "sink_Write w p = (if broken w then (w, True) else (w\<lparr>data := data w @ [p]\<rparr>, False))"

fun multi_Write :: "sink list \<Rightarrow> bytes \<Rightarrow> sink list \<times> bool" where
  "multi_Write [] p = ([], False)"
| "multi_Write (w # ws) p =
     (case sink_Write w p of
        (w', err) \<Rightarrow>
          if err then (w' # ws, True)
          else (case multi_Write ws p of (ws', err') \<Rightarrow> (w' # ws', err')))"

record logMessage =
  cmd :: int
  buf :: bytes

text \<open>A channel: its capacity and the messages it holds, oldest first. It is never closed.\<close>

record chan =
  cap :: nat
  queue :: "logMessage list"

definition make_chan :: "int \<Rightarrow> error + chan" where
  "make_chan bufferSize =
     (if bufferSize < 0 then Inl MakechanSize
      else Inr \<lparr>cap = nat bufferSize, queue = []\<rparr>)"

text \<open>
  \<open>BasicLogger\<close>. The wait group \<open>wg\<close> is its counter: 1 while the worker goroutine
  runs, 0 once it has returned or when it was never started. A call holds the mutex
  \<open>lock\<close> from its first statement after the level test to its return and is one
  step of the model, so the mutex has no field.
\<close>

record BasicLogger =
  level :: int
  flags :: int
  writer :: "sink list"
  ch :: chan
  wg :: nat

text \<open>What a call does to the world outside the logger, in the order it does it.\<close>

datatype effect =
    OpenFile string
  | Printf
  | TimeNow
  | RuntimeCaller
  | Sprintf
  | ChanSend logMessage
  | ChanRecv logMessage
  | WriterWrite bytes

type_synonym 'a result = "(error + 'a) \<times> effect list"

subsection \<open>NewLogger (lines 74-103)\<close>

text \<open>
  \<open>os.OpenFile\<close> is a parameter: \<open>openFile path\<close> is the opened file, or \<open>None\<close> when the
  file cannot be opened for append. \<open>go logger.server()\<close> sets the worker running.
\<close>

definition NewLogger ::
  "(string \<Rightarrow> sink option) \<Rightarrow> sink \<Rightarrow> string \<Rightarrow> int \<Rightarrow> int \<Rightarrow> int \<Rightarrow> BasicLogger result" where
  "NewLogger openFile stdout path lvl bufferSize flgs =
     (case openFile path of
        None \<Rightarrow> (Inl FileCreationFail, [OpenFile path, Printf])
      | Some logFile \<Rightarrow>
          (let w = (if flgs AND Lstdout \<noteq> 0 then [logFile, stdout] else [logFile])
           in case make_chan bufferSize of
                Inl e \<Rightarrow> (Inl e, [OpenFile path])
              | Inr c \<Rightarrow>
                  (Inr \<lparr>level = lvl, flags = flgs, writer = w, ch = c,
                        wg = (if flgs AND Lblocking = 0 then 1 else 0)\<rparr>,
                   [OpenFile path])))"

subsection \<open>server (lines 105-114)\<close>

text \<open>
  The body of the worker's loop on a received message. The second value of the
  receive is true, as the channel is never closed. The result of \<open>Write\<close> is dropped.
  Leaving the loop runs the deferred \<open>wg.Done()\<close>.
\<close>

definition server_handle :: "BasicLogger \<Rightarrow> logMessage \<Rightarrow> BasicLogger \<times> effect list" where
  "server_handle logger message =
     (if True \<and> cmd message = cmd_write then
        (case multi_Write (writer logger) (buf message) of
           (ws, err) \<Rightarrow> (logger\<lparr>writer := ws\<rparr>, [ChanRecv message, WriterWrite (buf message)]))
      else (logger\<lparr>wg := wg logger - 1\<rparr>, [ChanRecv message]))"

text \<open>One round of the worker's loop: it waits while the channel is empty.\<close>

definition server_iter :: "BasicLogger \<Rightarrow> BasicLogger result" where
  "server_iter logger =
     (if wg logger = 0 then (Inl Blocked, [])
      else case queue (ch logger) of
             [] \<Rightarrow> (Inl Blocked, [])
           | message # rest \<Rightarrow>
               (case server_handle (logger\<lparr>ch := (ch logger)\<lparr>queue := rest\<rparr>\<rparr>) message of
                  (l, es) \<Rightarrow> (Inr l, es)))"

text \<open>
  \<open>logger.ch <- message\<close>. A channel with a buffer takes the message when it has room.
  A channel without one hands the message to the worker waiting in its receive, which
  then runs the body of its loop; with no worker the sender waits for ever.
\<close>

definition chan_send :: "BasicLogger \<Rightarrow> logMessage \<Rightarrow> BasicLogger result" where
  "chan_send logger message =
     (if cap (ch logger) = 0 then
        (if 0 < wg logger then
           (case server_handle logger message of (l, es) \<Rightarrow> (Inr l, ChanSend message # es))
         else (Inl Blocked, []))
      else if length (queue (ch logger)) < cap (ch logger) then
        (Inr (logger\<lparr>ch := (ch logger)\<lparr>queue := queue (ch logger) @ [message]\<rparr>\<rparr>),
         [ChanSend message])
      else (Inl Blocked, []))"

subsection \<open>formatHeader (lines 132-178)\<close>

text \<open>The date and time block, lines 135-161.\<close>

definition formatHeader_datetime :: "BasicLogger \<Rightarrow> bytes \<Rightarrow> gotime \<Rightarrow> error + bytes" where
  "formatHeader_datetime logger b t =
     (if flags logger AND (Ldate OR Ltime OR Lmicroseconds) \<noteq> 0 then
        (let t = (if flags logger AND LUTC \<noteq> 0 then UTC t else t)
         in thenE
              (if flags logger AND Ldate \<noteq> 0 then
                 (case Date t of
                    (y, m, d) \<Rightarrow>
                      thenE (itoa b y 4) (\<lambda>b.
                      thenE (itoa (b @ ''/'') m 2) (\<lambda>b.
                      thenE (itoa (b @ ''/'') d 2) (\<lambda>b.
                      Inr (b @ '' '')))))
               else Inr b)
              (\<lambda>b.
                 if flags logger AND (Ltime OR Lmicroseconds) \<noteq> 0 then
                   (case Clock t of
                      (h, mi, sec) \<Rightarrow>
                        thenE (itoa b h 2) (\<lambda>b.
                        thenE (itoa (b @ '':'') mi 2) (\<lambda>b.
                        thenE (itoa (b @ '':'') sec 2) (\<lambda>b.
                        thenE
                          (if flags logger AND Lmicroseconds \<noteq> 0
                           then itoa (b @ ''.'') (quo (Nanosecond t) 1000) 6
                           else Inr b)
                          (\<lambda>b. Inr (b @ '' ''))))))
                 else Inr b))
      else Inr b)"

text \<open>The loop of lines 165-170, from index \<open>i\<close> downwards while \<open>i > 0\<close>.\<close>

fun shortfile_loop :: "string \<Rightarrow> nat \<Rightarrow> string" where
  "shortfile_loop file 0 = file"
| "shortfile_loop file (Suc i) =
     (if file ! Suc i = CHR ''/'' then drop (Suc i + 1) file else shortfile_loop file i)"

text \<open>The call-site block, lines 162-177.\<close>

definition formatHeader_callsite :: "BasicLogger \<Rightarrow> bytes \<Rightarrow> string \<Rightarrow> int \<Rightarrow> error + bytes" where
  "formatHeader_callsite logger b file line =
     (if flags logger AND (Lshortfile OR Llongfile) \<noteq> 0 then
        (let file = (if flags logger AND Lshortfile \<noteq> 0
                     then shortfile_loop file (length file - 1) else file)
         in thenE (itoa (b @ file @ '':'') line (- 1)) (\<lambda>b. Inr (b @ '': '')))
      else Inr b)"

definition formatHeader ::
  "BasicLogger \<Rightarrow> bytes \<Rightarrow> int \<Rightarrow> gotime \<Rightarrow> string \<Rightarrow> int \<Rightarrow> error + bytes" where
  "formatHeader logger b lvl t file line =
     thenE (formatHeader_datetime logger (b @ levelString lvl) t)
       (\<lambda>b. formatHeader_callsite logger b file line)"

subsection \<open>logging (lines 180-220)\<close>

text \<open>
  What a call reads from outside: the clock (\<open>time.Now()\<close>) and its caller
  (\<open>runtime.Caller(2)\<close>, \<open>None\<close> when it reports \<open>!ok\<close>). The rendered message
  \<open>s = fmt.Sprintf(format, v...)\<close> is an argument of the model.
\<close>

record callenv =
  now :: gotime
  caller :: "(string \<times> int) option"

text \<open>Lines 188-208: the finished line of an admitted call.\<close>

definition format_line :: "BasicLogger \<Rightarrow> callenv \<Rightarrow> int \<Rightarrow> string \<Rightarrow> error + bytes" where
  "format_line logger env lvl s =
     (case (if flags logger AND (Lshortfile OR Llongfile) \<noteq> 0
            then (case caller env of None \<Rightarrow> (''unknown'', 0) | Some fl \<Rightarrow> fl)
            else ([], 0)) of
        (file, line) \<Rightarrow>
          thenE (formatHeader logger [] lvl (now env) file line) (\<lambda>b.
            let b = b @ s
            in Inr (if length s = 0 \<or> s ! (length s - 1) \<noteq> CHR 0x0A then b @ [CHR 0x0A] else b)))"

definition logging :: "BasicLogger \<Rightarrow> callenv \<Rightarrow> int \<Rightarrow> string \<Rightarrow> BasicLogger result" where
  "logging logger env lvl s =
     (if level logger > lvl then (Inr logger, [])
      else
        (let effs = [TimeNow]
               @ (if flags logger AND (Lshortfile OR Llongfile) \<noteq> 0 then [RuntimeCaller] else [])
               @ [Sprintf]
         in case format_line logger env lvl s of
              Inl e \<Rightarrow> (Inl e, effs)
            | Inr b \<Rightarrow>
                if flags logger AND Lblocking = 0 then
                  (case chan_send logger \<lparr>cmd = cmd_write, buf = b\<rparr> of
                     (r, es) \<Rightarrow> (r, effs @ es))
                else
                  (case multi_Write (writer logger) b of
                     (ws, err) \<Rightarrow> (Inr (logger\<lparr>writer := ws\<rparr>), effs @ [WriterWrite b]))))"

subsection \<open>The methods (lines 222-247)\<close>

definition BasicLogger_Trace :: "BasicLogger \<Rightarrow> callenv \<Rightarrow> string \<Rightarrow> BasicLogger result" where
  "BasicLogger_Trace logger env s = logging logger env Trace s"

definition BasicLogger_Debug :: "BasicLogger \<Rightarrow> callenv \<Rightarrow> string \<Rightarrow> BasicLogger result" where
  "BasicLogger_Debug logger env s = logging logger env Debug s"

definition BasicLogger_Info :: "BasicLogger \<Rightarrow> callenv \<Rightarrow> string \<Rightarrow> BasicLogger result" where
  "BasicLogger_Info logger env s = logging logger env Info s"

definition BasicLogger_Warn :: "BasicLogger \<Rightarrow> callenv \<Rightarrow> string \<Rightarrow> BasicLogger result" where
  "BasicLogger_Warn logger env s = logging logger env Warn s"

definition BasicLogger_Error :: "BasicLogger \<Rightarrow> callenv \<Rightarrow> string \<Rightarrow> BasicLogger result" where
  "BasicLogger_Error logger env s = logging logger env Error s"

definition SetLogLevel :: "BasicLogger \<Rightarrow> int \<Rightarrow> BasicLogger" where
  "SetLogLevel logger lvl = logger\<lparr>level := lvl\<rparr>"

definition GetLogLevel :: "BasicLogger \<Rightarrow> int" where
  "GetLogLevel logger = level logger"

text \<open>
  \<open>Close\<close> is two blocking statements: the send of the exit command (line 245) and
  \<open>wg.Wait()\<close> (line 246), which returns once the counter is 0. \<open>Close\<close> itself is the
  two in a row, with no other goroutine running in between.
\<close>

definition Close_send :: "BasicLogger \<Rightarrow> BasicLogger result" where
  "Close_send logger = chan_send logger \<lparr>cmd = cmd_exit, buf = []\<rparr>"

definition Close_wait :: "BasicLogger \<Rightarrow> BasicLogger result" where
  "Close_wait logger = (if wg logger = 0 then (Inr logger, []) else (Inl Blocked, []))"

definition Close :: "BasicLogger \<Rightarrow> BasicLogger result" where
  "Close logger =
     (case Close_send logger of
        (Inl e, es) \<Rightarrow> (Inl e, es)
      | (Inr l, es) \<Rightarrow> (case Close_wait l of (r, es') \<Rightarrow> (r, es @ es')))"

subsection \<open>Schedules\<close>

text \<open>
  The goroutines of one logger take turns. A schedule lists the turns: a leveled call
  that returns, one round of the worker, and the two statements of \<open>Close\<close>. A turn
  that cannot be taken in the state it meets (\<open>Blocked\<close>) or that panics ends the run
  with that error.
\<close>

datatype event =
    Call int callenv string
  | Server
  | CloseSend
  | CloseWait

fun step :: "BasicLogger \<Rightarrow> event \<Rightarrow> BasicLogger result" where
  "step logger (Call lvl env s) = logging logger env lvl s"
| "step logger Server = server_iter logger"
| "step logger CloseSend = Close_send logger"
| "step logger CloseWait = Close_wait logger"

fun run :: "BasicLogger \<Rightarrow> event list \<Rightarrow> BasicLogger result" where
  "run logger [] = (Inr logger, [])"
| "run logger (e # es) =
     (case step logger e of
        (Inl err, tr) \<Rightarrow> (Inl err, tr)
      | (Inr l, tr) \<Rightarrow> (case run l es of (r, tr') \<Rightarrow> (r, tr @ tr')))"

subsection \<open>The words of the specification\<close>

text \<open>A flag is set when its bit is.\<close>

definition has_flag :: "BasicLogger \<Rightarrow> int \<Rightarrow> bool" where
  "has_flag logger flag = (flags logger AND flag \<noteq> 0)"

text \<open>The fields of the header as the specification writes them.\<close>

definition date_field :: "clockface \<Rightarrow> string" where
  "date_field c =
     zero_pad 4 (decimal (nat (year c))) @ ''/'' @ zero_pad 2 (decimal (nat (month c))) @ ''/''
       @ zero_pad 2 (decimal (nat (day c)))"

definition clock_field :: "clockface \<Rightarrow> string" where
  "clock_field c =
     zero_pad 2 (decimal (nat (hour c))) @ '':'' @ zero_pad 2 (decimal (nat (minute c))) @ '':''
       @ zero_pad 2 (decimal (nat (second c)))"

definition micro_field :: "gotime \<Rightarrow> string" where
  "micro_field t = zero_pad 6 (decimal (nat (nanosecond t) div 1000))"

text \<open>
  A literal layout such as \<open>YYYY/MM/DD\<close>: a letter of the layout stands for one decimal
  digit, any other character for itself.
\<close>

definition is_digit :: "char \<Rightarrow> bool" where
  "is_digit c = (c \<in> set ''0123456789'')"

fun matches_layout :: "string \<Rightarrow> string \<Rightarrow> bool" where
  "matches_layout [] [] = True"
| "matches_layout (p # ps) (c # cs) =
     ((if p \<in> set ''YMDHSd'' then is_digit c else c = p) \<and> matches_layout ps cs)"
| "matches_layout _ _ = False"

text \<open>A non-negative value of Go's \<open>int\<close>.\<close>

definition nonneg64 :: "int \<Rightarrow> bool" where
  "nonneg64 x = (0 \<le> x \<and> x < 2 ^ 63)"

definition clockface_ok :: "clockface \<Rightarrow> bool" where
  "clockface_ok c =
     (nonneg64 (year c) \<and> nonneg64 (month c) \<and> nonneg64 (day c) \<and> nonneg64 (hour c)
      \<and> nonneg64 (minute c) \<and> nonneg64 (second c))"

definition gotime_ok :: "gotime \<Rightarrow> bool" where
  "gotime_ok t = (clockface_ok (wall t) \<and> clockface_ok (utc t) \<and> nonneg64 (nanosecond t))"

text \<open>
  The ranges of the calendar and the clock: months 1 to 12, days 1 to 31, hours 0 to 23,
  minutes and seconds 0 to 59, nanoseconds below \<open>10^9\<close>; and a year of four digits.
\<close>

definition calendar :: "clockface \<Rightarrow> bool" where
  "calendar c =
     (0 \<le> year c \<and> year c \<le> 9999 \<and> 1 \<le> month c \<and> month c \<le> 12 \<and> 1 \<le> day c \<and> day c \<le> 31
      \<and> 0 \<le> hour c \<and> hour c \<le> 23 \<and> 0 \<le> minute c \<and> minute c \<le> 59
      \<and> 0 \<le> second c \<and> second c \<le> 59)"

definition timestamp_ok :: "gotime \<Rightarrow> bool" where
  "timestamp_ok t =
     (calendar (wall t) \<and> calendar (utc t) \<and> 0 \<le> nanosecond t \<and> nanosecond t < 1000000000)"

text \<open>What a call reads is representable: the time, and the line number of the caller.\<close>

definition callenv_ok :: "callenv \<Rightarrow> bool" where
  "callenv_ok env =
     (gotime_ok (now env) \<and> (case caller env of None \<Rightarrow> True | Some (file, line) \<Rightarrow> nonneg64 line))"

text \<open>The number of newline characters a line ends with.\<close>

definition trailing_newlines :: "string \<Rightarrow> nat" where
  "trailing_newlines s = length (takeWhile (\<lambda>c. c = CHR 0x0A) (rev s))"

text \<open>The attempts to open a file among the effects of a call.\<close>

fun is_OpenFile :: "effect \<Rightarrow> bool" where
  "is_OpenFile (OpenFile p) = True"
| "is_OpenFile _ = False"

text \<open>
  The sinks after the buffers \<open>ps\<close> were written to each of them, in order; sinks that
  accept every write; and the lines a schedule issues: those of its admitted calls, in the
  order of the calls (a call whose formatting panics ends the run and issues no line).
\<close>

definition wrote :: "bytes list \<Rightarrow> sink list \<Rightarrow> sink list" where
  "wrote ps ws = map (\<lambda>w. w\<lparr>data := data w @ ps\<rparr>) ws"

definition healthy :: "sink list \<Rightarrow> bool" where
  "healthy ws = (\<forall>w\<in>set ws. \<not> broken w)"

fun issued :: "BasicLogger \<Rightarrow> event list \<Rightarrow> bytes list" where
  "issued logger [] = []"
| "issued logger (Call lvl env s # es) =
     (if level logger \<le> lvl
      then (case format_line logger env lvl s of Inl e \<Rightarrow> [] | Inr b \<Rightarrow> [b]) else [])
     @ issued logger es"
| "issued logger (e # es) = issued logger es"

text \<open>The states of an asynchronous logger before the exit command is sent.\<close>

definition active :: "BasicLogger \<Rightarrow> bool" where
  "active lg =
     (flags lg AND Lblocking = 0 \<and> healthy (writer lg) \<and> wg lg = 1
      \<and> (\<forall>m\<in>set (queue (ch lg)). cmd m = cmd_write)
      \<and> (cap (ch lg) = 0 \<longrightarrow> queue (ch lg) = []))"

definition same_config :: "BasicLogger \<Rightarrow> BasicLogger \<Rightarrow> bool" where
  "same_config a b = (level a = level b \<and> flags a = flags b \<and> cap (ch a) = cap (ch b))"

text \<open>
  The states after the exit command is sent: the worker has returned, or it runs and the
  channel holds write commands (their buffers are \<open>pend\<close>), then a command that is not a
  write, then whatever was sent later.
\<close>

definition closing :: "BasicLogger \<Rightarrow> bytes list \<Rightarrow> bool" where
  "closing lg pend =
     (flags lg AND Lblocking = 0 \<and> healthy (writer lg)
      \<and> ((wg lg = 0 \<and> pend = [])
         \<or> (wg lg = 1 \<and> 0 < cap (ch lg)
            \<and> (\<exists>ws x later. queue (ch lg) = ws @ x # later \<and> (\<forall>m\<in>set ws. cmd m = cmd_write)
                  \<and> cmd x \<noteq> cmd_write \<and> pend = map buf ws))))"

subsection \<open>Sample values\<close>

definition sample_time :: gotime where
  "sample_time =
     \<lparr>wall = \<lparr>year = 2024, month = 3, day = 9, hour = 14, minute = 5, second = 7\<rparr>,
      utc = \<lparr>year = 2024, month = 3, day = 9, hour = 5, minute = 5, second = 7\<rparr>,
      nanosecond = 12345678\<rparr>"

definition sample_env :: callenv where
  "sample_env = \<lparr>now = sample_time, caller = Some (''/home/u/main.go'', 42)\<rparr>"

definition sample_sink :: sink where
  "sample_sink = \<lparr>data = [], broken = False\<rparr>"

definition sample_logger :: "int \<Rightarrow> int \<Rightarrow> int \<Rightarrow> BasicLogger" where
  "sample_logger lvl bufferSize flgs =
     \<lparr>level = lvl, flags = flgs, writer = [sample_sink],
      ch = \<lparr>cap = nat bufferSize, queue = []\<rparr>,
      wg = (if flgs AND Lblocking = 0 then 1 else 0)\<rparr>"

definition far_time :: gotime where
  "far_time = sample_time\<lparr>wall := (wall sample_time)\<lparr>year := 10000\<rparr>\<rparr>"

definition broken_sink :: sink where
  "broken_sink = \<lparr>data = [], broken = True\<rparr>"

definition sample_calls :: "event list" where
  "sample_calls = [Call Info sample_env ''a'', Call Trace sample_env ''skipped'', Call Error sample_env ''b'']"

definition sample_late :: "event list" where
  "sample_late = [Server, Call Warn sample_env ''late'', Server]"

section \<open>Arithmetic of itoa\<close>

lemma wrap64_id: "int64 x \<Longrightarrow> wrap64 x = x"
  by (simp add: wrap64_def int64_def)

lemma wrap64_mod256: "wrap64 x mod 256 = x mod 256"
proof -
  have "(256::int) dvd 2 ^ 64" by simp
  then have a: "((x + 2 ^ 63) mod 2 ^ 64) mod 256 = (x + 2 ^ 63) mod 256"
    by (rule mod_mod_cancel)
  have b: "(2::int) ^ 63 mod 256 = 0" by simp
  have "wrap64 x mod 256 = (((x + 2 ^ 63) mod 2 ^ 64) mod 256 - 2 ^ 63 mod 256) mod 256"
    unfolding wrap64_def by (rule mod_diff_eq [symmetric])
  also have "\<dots> = ((x + 2 ^ 63) mod 256) mod 256"
    by (simp only: a b diff_0_right)
  also have "\<dots> = (x mod 256 + 2 ^ 63 mod 256) mod 256"
    by (simp only: mod_mod_trivial mod_add_eq)
  also have "\<dots> = x mod 256"
    by (simp only: b add_0_right mod_mod_trivial)
  finally show ?thesis .
qed

lemma byte_wrap64: "byte (wrap64 x) = byte x"
  by (simp add: byte_def wrap64_mod256)

lemma byte_digit_step:
  assumes "0 \<le> i"
  shows "byte (wrap64 (wrap64 (48 + i) - wrap64 (quo i 10 * 10))) = digit (nat i mod 10)"
proof -
  have q: "quo i 10 = i div 10"
    using assms by (simp add: quo_def sgn_if)
  have "(wrap64 (48 + i) - wrap64 (i div 10 * 10)) mod 256
          = (wrap64 (48 + i) mod 256 - wrap64 (i div 10 * 10) mod 256) mod 256"
    by (rule mod_diff_eq [symmetric])
  also have "\<dots> = ((48 + i) mod 256 - (i div 10 * 10) mod 256) mod 256"
    by (simp only: wrap64_mod256)
  also have "\<dots> = (48 + i - i div 10 * 10) mod 256"
    by (rule mod_diff_eq)
  also have "\<dots> = (48 + i mod 10) mod 256"
    by (simp add: minus_div_mult_eq_mod [symmetric] algebra_simps)
  finally have m: "(wrap64 (48 + i) - wrap64 (i div 10 * 10)) mod 256 = (48 + i mod 10) mod 256" .
  have "int (48 + nat i mod 10) = 48 + i mod 10"
    using assms by (simp add: zmod_int)
  then have "(char_of (48 + nat i mod 10) :: char) = char_of (48 + i mod 10)"
    by (metis char_of_nat)
  moreover have "wrap64 (wrap64 (48 + i) - wrap64 (i div 10 * 10)) mod 256 = (48 + i mod 10) mod 256"
    by (simp only: wrap64_mod256 m)
  then have "(char_of (wrap64 (wrap64 (48 + i) - wrap64 (i div 10 * 10))) :: char) = char_of (48 + i mod 10)"
    by (simp only: char_of_quasi_inj)
  ultimately show ?thesis
    unfolding byte_def digit_def q by simp
qed

lemma byte_digit_last: "0 \<le> i \<Longrightarrow> byte (wrap64 (48 + i)) = digit (nat i)"
proof -
  assume a: "0 \<le> i"
  have "int (48 + nat i) = 48 + i" using a by simp
  then have "(char_of (48 + nat i) :: char) = char_of (48 + i)"
    by (metis char_of_nat)
  then show ?thesis by (simp add: byte_def digit_def wrap64_mod256)
qed

lemma length_decimal_pos: "Suc 0 \<le> length (decimal n)"
  by (subst decimal.simps) simp

lemma decimal_small: "n < 10 \<Longrightarrow> decimal n = [digit n]"
  by (subst decimal.simps) simp

lemma decimal_large: "10 \<le> n \<Longrightarrow> decimal n = decimal (n div 10) @ [digit (n mod 10)]"
  by (subst decimal.simps) simp

lemma zero_pad_snoc:
  "zero_pad w (s @ [c]) = zero_pad (w - 1) s @ [c]"
  by (simp add: zero_pad_def)

lemma zero_pad_step_small:
  "n < 10 \<Longrightarrow> 1 < w \<Longrightarrow> zero_pad w (decimal n) = zero_pad (w - 1) (decimal 0) @ [digit n]"
proof -
  assume n: "n < 10" and w: "1 < w"
  have z: "digit 0 = CHR ''0''" unfolding digit_def by code_simp
  have "replicate (w - 1) (CHR ''0'') = replicate (w - 2) (CHR ''0'') @ [CHR ''0'']"
    using w by (metis Suc_diff_Suc Suc_1 replicate_Suc replicate_append_same)
  then show ?thesis
    using n by (simp add: zero_pad_def decimal_small z)
qed

lemma length_zero_pad: "length (zero_pad w s) = max (length s) w"
  by (simp add: zero_pad_def)

lemma itoa_loop_spec:
  "0 \<le> i \<Longrightarrow> wid \<le> 20 \<Longrightarrow> - (2 ^ 63) + int (length (decimal (nat i))) - 1 \<le> wid \<Longrightarrow>
   int (length (zero_pad (nat wid) (decimal (nat i)))) \<le> bp + 1 \<Longrightarrow> bp < int (length b) \<Longrightarrow>
   \<exists>b' bp' i'. itoa_loop b bp i wid = Inr (b', bp', i') \<and> 0 \<le> bp' \<and> bp' \<le> bp \<and> 0 \<le> i'
      \<and> length b' = length b
      \<and> drop (nat bp') (b'[nat bp' := digit (nat i')])
          = zero_pad (nat wid) (decimal (nat i)) @ drop (nat bp + 1) b"
proof (induction b bp i wid rule: itoa_loop.induct)
  case (1 b bp i wid)
  have lenpos: "Suc 0 \<le> length (decimal (nat i))" by (rule length_decimal_pos)
  have "1 \<le> max (length (decimal (nat i))) (nat wid)"
    using lenpos by linarith
  then have bp0: "0 \<le> bp"
    using "1.prems"(4) unfolding length_zero_pad by linarith
  show ?case
  proof (cases "10 \<le> i \<or> 1 < wid")
    case False
    then have small: "nat i < 10" and w: "nat wid \<le> 1" by auto
    have "itoa_loop b bp i wid = Inr (b, bp, i)"
      using False by (subst itoa_loop.simps) simp
    moreover have "drop (nat bp) (b[nat bp := digit (nat i)])
        = zero_pad (nat wid) (decimal (nat i)) @ drop (nat bp + 1) b"
      using small w bp0 "1.prems"(5)
      by (simp add: decimal_small zero_pad_def Cons_nth_drop_Suc [symmetric]
            upd_conv_take_nth_drop)
    ultimately show ?thesis using bp0 "1.prems"(1) by simp
  next
    case True
    let ?q = "quo i 10"
    let ?b1 = "b[nat bp := byte (wrap64 (wrap64 (48 + i) - wrap64 (?q * 10)))]"
    have q: "?q = i div 10" using "1.prems"(1) by (simp add: quo_def sgn_if)
    have q0: "0 \<le> ?q" using "1.prems"(1) q by simp
    have natq: "nat ?q = nat i div 10" using "1.prems"(1) q by (simp add: nat_div_distrib)
    have step: "zero_pad (nat wid) (decimal (nat i))
        = zero_pad (nat wid - 1) (decimal (nat i div 10)) @ [digit (nat i mod 10)]"
    proof (cases "10 \<le> i")
      case True
      then have "10 \<le> nat i" by simp
      then show ?thesis by (simp add: decimal_large zero_pad_snoc)
    next
      case False
      with True have "1 < nat wid" and "nat i < 10" using "1.prems"(1) by auto
      then show ?thesis by (simp add: zero_pad_step_small)
    qed
    have wlow: "- (2 ^ 63) \<le> wid - 1"
    proof (cases "10 \<le> i")
      case True
      then have "10 \<le> nat i" by simp
      then have "2 \<le> length (decimal (nat i))"
        using length_decimal_pos [of "nat i div 10"] by (simp add: decimal_large)
      then show ?thesis using "1.prems"(3) by simp
    next
      case False
      with True show ?thesis by simp
    qed
    then have wr: "wrap64 (wid - 1) = wid - 1"
      using "1.prems"(2) by (simp add: wrap64_id int64_def)
    have natw: "nat (wid - 1) = nat wid - 1" by arith
    have len: "int (length (zero_pad (nat (wid - 1)) (decimal (nat ?q)))) \<le> (bp - 1) + 1"
      using "1.prems"(4) step natq natw by simp
    have low': "- (2 ^ 63) + int (length (decimal (nat ?q))) - 1 \<le> wid - 1"
    proof (cases "10 \<le> i")
      case True
      then have "10 \<le> nat i" by simp
      then have "length (decimal (nat i)) = length (decimal (nat i div 10)) + 1"
        by (simp add: decimal_large)
      then show ?thesis using "1.prems"(3) natq by simp
    next
      case False
      then have "nat ?q = 0" using natq "1.prems"(1) by simp
      then show ?thesis using wlow by (simp add: decimal_small)
    qed
    have inrange: "\<not> (bp < 0 \<or> int (length b) \<le> bp)" using bp0 "1.prems"(5) by simp
    have IH: "\<exists>b' bp' i'. itoa_loop ?b1 (bp - 1) ?q (wid - 1) = Inr (b', bp', i') \<and> 0 \<le> bp' \<and> bp' \<le> bp - 1
        \<and> 0 \<le> i' \<and> length b' = length ?b1
        \<and> drop (nat bp') (b'[nat bp' := digit (nat i')])
          = zero_pad (nat (wid - 1)) (decimal (nat ?q)) @ drop (nat (bp - 1) + 1) ?b1"
      using "1.IH" [OF True refl refl inrange q0] "1.prems"(2) low' len "1.prems"(5) wr
      by simp
    then obtain b' bp' i' where r: "itoa_loop ?b1 (bp - 1) ?q (wid - 1) = Inr (b', bp', i')"
      and r1: "0 \<le> bp'" "bp' \<le> bp - 1" "0 \<le> i'" "length b' = length ?b1"
      and r2: "drop (nat bp') (b'[nat bp' := digit (nat i')])
          = zero_pad (nat (wid - 1)) (decimal (nat ?q)) @ drop (nat (bp - 1) + 1) ?b1"
      by blast
    have bp1: "0 \<le> bp - 1" using r1 by simp
    have "nat (bp - 1) + 1 = nat bp" using bp1 by simp
    then have "drop (nat (bp - 1) + 1) ?b1 = digit (nat i mod 10) # drop (nat bp + 1) b"
      using byte_digit_step [OF "1.prems"(1)] "1.prems"(5) bp0
      by (simp add: upd_conv_take_nth_drop)
    then have "drop (nat bp') (b'[nat bp' := digit (nat i')])
          = zero_pad (nat wid) (decimal (nat i)) @ drop (nat bp + 1) b"
      using r2 step natq natw by simp
    moreover have "itoa_loop b bp i wid = Inr (b', bp', i')"
      using True inrange r wr by (subst itoa_loop.simps) (simp add: Let_def)
    ultimately show ?thesis using r1 by simp
  qed
qed

lemma length_decimal_le: "n < 10 ^ k \<Longrightarrow> 0 < k \<Longrightarrow> length (decimal n) \<le> k"
proof (induction k arbitrary: n)
  case 0
  then show ?case by simp
next
  case (Suc k)
  show ?case
  proof (cases "n < 10")
    case True
    then show ?thesis by (simp add: decimal_small)
  next
    case False
    then have k: "0 < k" using Suc.prems(1) by (cases k) auto
    have "n div 10 < 10 ^ k" using Suc.prems(1) by (simp add: less_mult_imp_div_less mult.commute)
    then have "length (decimal (n div 10)) \<le> k" using Suc.IH k by blast
    then show ?thesis using False by (simp add: decimal_large)
  qed
qed

lemma digits_int64:
  assumes "0 \<le> i" "i < 2 ^ 63"
  shows "length (decimal (nat i)) \<le> 19"
proof -
  have "nat i < 2 ^ 63" using assms by (simp add: nat_less_iff)
  also have "(2::nat) ^ 63 < 10 ^ 19" by simp
  finally show ?thesis
    using length_decimal_le [of "nat i" 19] by simp
qed

lemma itoa_exact:
  assumes "0 \<le> i" "i < 2 ^ 63" "wid \<le> 20"
    and low: "- (2 ^ 63) + int (length (decimal (nat i))) - 1 \<le> wid"
  shows "itoa b i wid = Inr (b @ zero_pad (nat wid) (decimal (nat i)))"
proof -
  have l19: "length (decimal (nat i)) \<le> 19"
    using digits_int64 [OF assms(1,2)] .
  have len: "int (length (zero_pad (nat wid) (decimal (nat i)))) \<le> 19 + 1"
    using l19 assms(3) by (simp add: length_zero_pad)
  obtain b' bp' i' where r: "itoa_loop (replicate 20 (CHR 0x00)) 19 i wid = Inr (b', bp', i')"
    and r1: "0 \<le> bp'" "bp' \<le> 19" "0 \<le> i'" "length b' = 20"
    and r2: "drop (nat bp') (b'[nat bp' := digit (nat i')])
          = zero_pad (nat wid) (decimal (nat i)) @ drop (nat 19 + 1) (replicate 20 (CHR 0x00))"
    using itoa_loop_spec [OF assms(1) assms(3) low len, of "replicate 20 (CHR 0x00)"] by auto
  show ?thesis
    unfolding itoa_def using r r1 r2 by (simp add: byte_digit_last)
qed

lemma itoa_spec:
  assumes "0 \<le> i" "i < 2 ^ 63" "wid \<le> 20" "- (2 ^ 63) + 18 \<le> wid"
  shows "itoa b i wid = Inr (b @ zero_pad (nat wid) (decimal (nat i)))"
proof -
  have "- (2 ^ 63) + int (length (decimal (nat i))) - 1 \<le> wid"
    using digits_int64 [OF assms(1,2)] assms(4) by simp
  then show ?thesis using itoa_exact [OF assms(1-3)] by blast
qed

lemma and_or_flag: "((f::int) AND (a OR b) \<noteq> 0) = (f AND a \<noteq> 0 \<or> f AND b \<noteq> 0)"
  by (simp add: bit.conj_disj_distrib or_eq_0_iff)

lemma thenE_Inr [simp]: "thenE (Inr x) f = f x"
  by (simp add: thenE_def)

lemma thenE_Inl [simp]: "thenE (Inl e) f = Inl e"
  by (simp add: thenE_def)

lemma itoa_field:
  "nonneg64 i \<Longrightarrow> w \<in> {2, 4, 6} \<Longrightarrow> itoa b i w = Inr (b @ zero_pad (nat w) (decimal (nat i)))"
  by (rule itoa_spec) (auto simp: nonneg64_def)

lemma itoa_line:
  "nonneg64 i \<Longrightarrow> itoa b i (- 1) = Inr (b @ decimal (nat i))"
  using itoa_spec [of i "- 1" b] by (simp add: nonneg64_def zero_pad_def)

lemma nonneg64_micro: "nonneg64 n \<Longrightarrow> nonneg64 (quo n 1000) \<and> nat (quo n 1000) = nat n div 1000"
proof -
  assume a: "nonneg64 n"
  then have q: "quo n 1000 = n div 1000" by (simp add: quo_def sgn_if nonneg64_def)
  have "n div 1000 \<le> n div 1" using a by (intro zdiv_mono2) (simp_all add: nonneg64_def)
  then have "n div 1000 \<le> n" by simp
  moreover have "0 \<le> n div 1000" using a by (simp add: nonneg64_def pos_imp_zdiv_nonneg_iff)
  ultimately show ?thesis using a q by (simp add: nonneg64_def nat_div_distrib)
qed

lemma datetime_spec:
  assumes "gotime_ok t"
  shows "formatHeader_datetime logger b t =
     Inr (b @ (if has_flag logger Ldate
               then date_field (if has_flag logger LUTC then utc t else wall t) @ '' '' else [])
            @ (if has_flag logger Ltime \<or> has_flag logger Lmicroseconds
               then clock_field (if has_flag logger LUTC then utc t else wall t)
                    @ (if has_flag logger Lmicroseconds then ''.'' @ micro_field t else [])
                    @ '' ''
               else []))"
proof -
  let ?c = "if has_flag logger LUTC then utc t else wall t"
  have c: "clockface_ok (wall t)" "clockface_ok (utc t)" using assms by (simp_all add: gotime_ok_def)
  have n: "nonneg64 (quo (nanosecond t) 1000)" "nat (quo (nanosecond t) 1000) = nat (nanosecond t) div 1000"
    using assms nonneg64_micro by (auto simp: gotime_ok_def)
  show ?thesis
    using c n
    by (simp add: formatHeader_datetime_def has_flag_def and_or_flag Date_def Clock_def
        Nanosecond_def UTC_def clockface_ok_def itoa_field date_field_def clock_field_def
        micro_field_def Let_def)
qed

section \<open>The header\<close>

lemma callsite_spec:
  assumes "nonneg64 line"
  shows "formatHeader_callsite logger b file line =
     Inr (b @ (if has_flag logger Lshortfile \<or> has_flag logger Llongfile
               then (if has_flag logger Lshortfile then shortfile_loop file (length file - 1) else file)
                    @ '':'' @ decimal (nat line) @ '': ''
               else []))"
  using assms
  by (simp add: formatHeader_callsite_def has_flag_def and_or_flag itoa_line Let_def)

lemma sample_time_ok: "gotime_ok sample_time"
  by (simp add: gotime_ok_def clockface_ok_def nonneg64_def sample_time_def)

section \<open>Formatting\<close>

subsection \<open>The digits of a number\<close>

text \<open>
  C10 (amended). For every non-negative \<open>i\<close> of Go's \<open>int\<close> and every width \<open>wid\<close> up to 20
  that is at least \<open>-2^63\<close> plus the number of digits of \<open>i\<close> less one (every width from
  \<open>-2^63 + 18\<close> is), \<open>itoa\<close> returns without leaving its 20-byte array and appends the
  decimal numeral of \<open>i\<close>, left-padded with zeros to width \<open>wid\<close>: as many bytes as the
  larger of the number of digits and \<open>wid\<close>. \<open>formatHeader\<close> calls \<open>itoa\<close> with the widths 4, 2,
  6 and -1 only, so it never fails on a time and a line number that are non-negative.
\<close>

theorem itoa_pads_decimal:
  "(0 \<le> i \<and> i < 2 ^ 63 \<and> - (2 ^ 63) + int (length (decimal (nat i))) - 1 \<le> wid \<and> wid \<le> 20 \<longrightarrow>
      itoa b i wid = Inr (b @ zero_pad (nat wid) (decimal (nat i)))
      \<and> length (zero_pad (nat wid) (decimal (nat i))) = max (length (decimal (nat i))) (nat wid))
   \<and> (0 \<le> i \<and> i < 2 ^ 63 \<longrightarrow> int (length (decimal (nat i))) - 1 \<le> 18)
   \<and> (gotime_ok t \<and> nonneg64 line \<longrightarrow> (\<exists>out. formatHeader logger hb lvl t file line = Inr out))"
proof (intro conjI impI)
  assume a: "0 \<le> i \<and> i < 2 ^ 63 \<and> - (2 ^ 63) + int (length (decimal (nat i))) - 1 \<le> wid \<and> wid \<le> 20"
  then show "itoa b i wid = Inr (b @ zero_pad (nat wid) (decimal (nat i)))"
    by (intro itoa_exact) simp_all
  show "length (zero_pad (nat wid) (decimal (nat i))) = max (length (decimal (nat i))) (nat wid)"
    by (rule length_zero_pad)
next
  assume "0 \<le> i \<and> i < 2 ^ 63"
  then show "int (length (decimal (nat i))) - 1 \<le> 18"
    using digits_int64 [of i] by simp
next
  assume "gotime_ok t \<and> nonneg64 line"
  then show "\<exists>out. formatHeader logger hb lvl t file line = Inr out"
    by (simp add: formatHeader_def datetime_spec callsite_spec)
qed

theorem itoa_pads_decimal_witness:
  "(0 \<le> (7::int) \<and> (7::int) < 2 ^ 63 \<and> - (2 ^ 63) + int (length (decimal (nat 7))) - 1 \<le> (2::int)
      \<and> (2::int) \<le> 20)
   \<and> itoa ''/'' 7 2 = Inr ''/07''
   \<and> gotime_ok sample_time \<and> nonneg64 42
   \<and> (\<exists>out. formatHeader (sample_logger Info 2 LstdFlags) [] Info sample_time ''main.go'' 42 = Inr out)"
proof -
  have d: "zero_pad 2 (decimal 7) = ''07''" "length (decimal 7) = 1" by code_simp+
  have n: "nonneg64 42" by (simp add: nonneg64_def)
  show ?thesis
    using itoa_pads_decimal [of 7 2 "''/''" sample_time 42 "sample_logger Info 2 LstdFlags" "[]" Info "''main.go''"]
      sample_time_ok n d
    by simp
qed

text \<open>
  C10 as stated fails at the least width: the first \<open>wid--\<close> wraps round to \<open>2^63 - 1\<close>,
  and the loop runs until the index leaves the array.
\<close>

theorem itoa_min_width_counterexample:
  "0 \<le> (10::int) \<and> - (2 ^ 63) \<le> (20::int) \<and> itoa [] 10 (- (2 ^ 63)) = Inl IndexOutOfRange"
  by code_simp

subsection \<open>Evaluation on numerals\<close>

lemma digit_table:
  "digit 0 = CHR ''0''" "digit 1 = CHR ''1''" "digit 2 = CHR ''2''" "digit 3 = CHR ''3''"
  "digit 4 = CHR ''4''" "digit 5 = CHR ''5''" "digit 6 = CHR ''6''" "digit 7 = CHR ''7''"
  "digit 8 = CHR ''8''" "digit 9 = CHR ''9''" "digit (Suc 0) = CHR ''1''"
  unfolding digit_def by code_simp+

lemmas flag_defs = Ldate_def Ltime_def Lmicroseconds_def Llongfile_def Lshortfile_def LUTC_def
  Lblocking_def Lstdout_def LstdFlags_def

lemmas level_defs = Trace_def Debug_def Info_def Warn_def Error_def

lemmas decimal_eval = decimal_small decimal_large digit_table zero_pad_def

lemmas header_eval = formatHeader_callsite_def sample_logger_def flag_defs level_defs
  levelString_def levelStringMap_def date_field_def clock_field_def micro_field_def
  sample_time_def has_flag_def decimal_eval itoa_line nonneg64_def

text \<open>
  C5 (amended). In the header, the date \<open>YYYY/MM/DD\<close> is emitted if and only if the date flag
  is set; the time \<open>HH:MM:SS\<close> is emitted if and only if the time flag or the microseconds
  flag is set, with the six digits of microseconds after it if and only if the
  microseconds flag is set; the fields are those of the time in UTC when the UTC flag is
  set, and of the time as given otherwise.
\<close>

theorem header_date_time_flags:
  "gotime_ok t \<Longrightarrow>
   formatHeader logger b lvl t file line =
     formatHeader_callsite logger
       (b @ levelString lvl
          @ (if has_flag logger Ldate
             then date_field (if has_flag logger LUTC then utc t else wall t) @ '' '' else [])
          @ (if has_flag logger Ltime \<or> has_flag logger Lmicroseconds
             then clock_field (if has_flag logger LUTC then utc t else wall t)
                  @ (if has_flag logger Lmicroseconds then ''.'' @ micro_field t else [])
                  @ '' ''
             else []))
       file line"
proof -
  assume ok: "gotime_ok t"
  have "formatHeader logger b lvl t file line
      = thenE (formatHeader_datetime logger (b @ levelString lvl) t)
          (\<lambda>b. formatHeader_callsite logger b file line)"
    by (simp add: formatHeader_def)
  also have "\<dots> = thenE
      (Inr ((b @ levelString lvl)
          @ (if has_flag logger Ldate
             then date_field (if has_flag logger LUTC then utc t else wall t) @ '' '' else [])
          @ (if has_flag logger Ltime \<or> has_flag logger Lmicroseconds
             then clock_field (if has_flag logger LUTC then utc t else wall t)
                  @ (if has_flag logger Lmicroseconds then ''.'' @ micro_field t else [])
                  @ '' ''
             else [])))
      (\<lambda>b. formatHeader_callsite logger b file line)"
    by (simp only: datetime_spec [OF ok])
  finally show ?thesis by simp
qed

theorem header_date_time_flags_witness:
  "gotime_ok sample_time
   \<and> formatHeader (sample_logger Info 2 (Ldate OR Lmicroseconds OR LUTC)) [] Warn sample_time [] 0
       = Inr ''[WARN]  2024/03/09 05:05:07.012345 ''"
proof -
  have "formatHeader (sample_logger Info 2 (Ldate OR Lmicroseconds OR LUTC)) [] Warn sample_time [] 0
       = Inr ''[WARN]  2024/03/09 05:05:07.012345 ''"
    using header_date_time_flags [OF sample_time_ok,
        of "sample_logger Info 2 (Ldate OR Lmicroseconds OR LUTC)" "[]" Warn "[]" 0]
    by (simp add: header_eval)
  then show ?thesis by (simp add: sample_time_ok)
qed

text \<open>
  C5 as stated fails with the microseconds flag alone: the time flag is not set, and the
  time is emitted.
\<close>

theorem time_without_time_flag_counterexample:
  "\<not> has_flag (sample_logger Info 2 Lmicroseconds) Ltime
   \<and> formatHeader (sample_logger Info 2 Lmicroseconds) [] Info sample_time [] 0
       = Inr (''[INFO]  '' @ ''14:05:07'' @ ''.012345 '')"
  by code_simp

subsection \<open>The fixed layout\<close>

lemma is_digit_digit: "d < 10 \<Longrightarrow> is_digit (digit d)"
proof -
  assume "d < 10"
  then have "d \<in> {0, 1, 2, 3, 4, 5, 6, 7, 8, 9}" by auto
  then show ?thesis by (auto simp: digit_table is_digit_def)
qed

lemma decimal_digits: "c \<in> set (decimal n) \<Longrightarrow> is_digit c"
proof (induction n arbitrary: c rule: decimal.induct)
  case (1 n)
  show ?case
  proof (cases "n < 10")
    case True
    then show ?thesis using "1.prems" by (simp add: decimal_small is_digit_digit)
  next
    case False
    then show ?thesis using "1.prems" "1.IH" by (auto simp: decimal_large is_digit_digit)
  qed
qed

lemma zero_pad_digits: "c \<in> set (zero_pad w (decimal n)) \<Longrightarrow> is_digit c"
proof -
  assume "c \<in> set (zero_pad w (decimal n))"
  then have "c = CHR ''0'' \<or> c \<in> set (decimal n)"
    by (auto simp: zero_pad_def)
  moreover have "is_digit (CHR ''0'')" by (simp add: is_digit_def)
  ultimately show ?thesis using decimal_digits by blast
qed

lemma length_field: "n < 10 ^ w \<Longrightarrow> 0 < w \<Longrightarrow> length (zero_pad w (decimal n)) = w"
  using length_decimal_le [of n w] by (simp add: length_zero_pad)

lemma matches_digits:
  "length f = n \<Longrightarrow> (\<forall>c\<in>set f. is_digit c) \<Longrightarrow> n \<le> length ps \<Longrightarrow>
   (\<forall>p\<in>set (take n ps). p \<in> set ''YMDHSd'') \<Longrightarrow>
   matches_layout ps (f @ rest) = matches_layout (drop n ps) rest"
proof (induction f arbitrary: n ps)
  case Nil
  then show ?case by simp
next
  case (Cons c f)
  then obtain p ps' where ps: "ps = p # ps'" by (cases ps) auto
  obtain m where n: "n = Suc m" using Cons.prems(1) by auto
  have "matches_layout ps' (f @ rest) = matches_layout (drop m ps') rest"
    using Cons.IH [of m ps'] Cons.prems ps n by simp
  then show ?case using Cons.prems ps n by simp
qed

lemma matches_field:
  "n < 10 ^ w \<Longrightarrow> 0 < w \<Longrightarrow> w \<le> length ps \<Longrightarrow> (\<forall>p\<in>set (take w ps). p \<in> set ''YMDHSd'') \<Longrightarrow>
   matches_layout ps (zero_pad w (decimal n) @ rest) = matches_layout (drop w ps) rest"
  by (rule matches_digits) (auto simp: length_field zero_pad_digits)

lemma timestamp_gotime_ok: "timestamp_ok t \<Longrightarrow> gotime_ok t"
  by (simp add: timestamp_ok_def gotime_ok_def calendar_def clockface_ok_def nonneg64_def)

lemma calendar_layout:
  assumes "calendar c" "0 \<le> nanosecond t" "nanosecond t < 1000000000"
  shows "matches_layout ''YYYY/MM/DD HH:MM:SS.dddddd ''
           (date_field c @ '' '' @ clock_field c @ ''.'' @ micro_field t @ '' '')"
proof -
  have y: "nat (year c) < 10 ^ 4" and mo: "nat (month c) < 10 ^ 2" and d: "nat (day c) < 10 ^ 2"
    and h: "nat (hour c) < 10 ^ 2" and mi: "nat (minute c) < 10 ^ 2" and s: "nat (second c) < 10 ^ 2"
    using assms(1) by (auto simp: calendar_def)
  have us: "nat (nanosecond t) div 1000 < 10 ^ 6"
    using assms(2,3) by (simp add: div_less_iff_less_mult nat_less_iff)
  show ?thesis
    unfolding date_field_def clock_field_def micro_field_def
    using y mo d h mi s us by (simp add: matches_field)
qed

text \<open>
  C6 (amended). With the date, time and microseconds flags all set, for every timestamp
  whose fields are in the ranges of the calendar and whose year has at most four digits,
  the date and time portion of the header is exactly the layout
  \<open>YYYY/MM/DD HH:MM:SS.dddddd \<close>, every field padded with zeros to its width.
\<close>

theorem header_fixed_layout:
  assumes "has_flag logger Ldate" "has_flag logger Ltime" "has_flag logger Lmicroseconds"
    and "timestamp_ok t"
  shows "\<exists>stamp. formatHeader logger b lvl t file line
             = formatHeader_callsite logger (b @ levelString lvl @ stamp) file line
           \<and> stamp = date_field (if has_flag logger LUTC then utc t else wall t) @ '' ''
               @ clock_field (if has_flag logger LUTC then utc t else wall t) @ ''.''
               @ micro_field t @ '' ''
           \<and> matches_layout ''YYYY/MM/DD HH:MM:SS.dddddd '' stamp"
proof -
  let ?c = "if has_flag logger LUTC then utc t else wall t"
  have c: "calendar ?c" and n: "0 \<le> nanosecond t" "nanosecond t < 1000000000"
    using assms(4) by (simp_all add: timestamp_ok_def)
  have "formatHeader logger b lvl t file line
      = formatHeader_callsite logger
          (b @ levelString lvl @ date_field ?c @ '' '' @ clock_field ?c @ ''.'' @ micro_field t @ '' '')
          file line"
    using assms(1-3) by (simp add: formatHeader_def datetime_spec [OF timestamp_gotime_ok [OF assms(4)]])
  then show ?thesis using calendar_layout [OF c n] by blast
qed

lemma sample_timestamp_ok: "timestamp_ok sample_time"
  by (simp add: timestamp_ok_def calendar_def sample_time_def)

theorem header_fixed_layout_witness:
  "has_flag (sample_logger Info 2 (Ldate OR Ltime OR Lmicroseconds)) Ldate
   \<and> has_flag (sample_logger Info 2 (Ldate OR Ltime OR Lmicroseconds)) Ltime
   \<and> has_flag (sample_logger Info 2 (Ldate OR Ltime OR Lmicroseconds)) Lmicroseconds
   \<and> timestamp_ok sample_time
   \<and> formatHeader (sample_logger Info 2 (Ldate OR Ltime OR Lmicroseconds)) [] Info sample_time [] 0
       = Inr (''[INFO]  '' @ ''2024/03/09 14:05:07.012345 '')
   \<and> matches_layout ''YYYY/MM/DD HH:MM:SS.dddddd '' ''2024/03/09 14:05:07.012345 ''"
proof -
  let ?L = "sample_logger Info 2 (Ldate OR Ltime OR Lmicroseconds)"
  have f: "has_flag ?L Ldate" "has_flag ?L Ltime" "has_flag ?L Lmicroseconds"
    by (simp_all add: has_flag_def sample_logger_def flag_defs)
  from header_fixed_layout [OF f sample_timestamp_ok, of "[]" Info "[]" 0]
  have "formatHeader ?L [] Info sample_time [] 0 = Inr (''[INFO]  '' @ ''2024/03/09 14:05:07.012345 '')
      \<and> matches_layout ''YYYY/MM/DD HH:MM:SS.dddddd '' ''2024/03/09 14:05:07.012345 ''"
    by (simp add: header_eval)
  then show ?thesis using f sample_timestamp_ok by simp
qed

text \<open>C6 as stated fails for a timestamp in the year 10000: the year takes five digits.\<close>

theorem five_digit_year_counterexample:
  "has_flag (sample_logger Info 2 (Ldate OR Ltime OR Lmicroseconds)) Ldate
   \<and> has_flag (sample_logger Info 2 (Ldate OR Ltime OR Lmicroseconds)) Ltime
   \<and> has_flag (sample_logger Info 2 (Ldate OR Ltime OR Lmicroseconds)) Lmicroseconds
   \<and> formatHeader (sample_logger Info 2 (Ldate OR Ltime OR Lmicroseconds)) [] Info far_time [] 0
       = Inr (''[INFO]  '' @ ''10000/03/09 14:05:07.012345 '')
   \<and> \<not> matches_layout ''YYYY/MM/DD HH:MM:SS.dddddd '' ''10000/03/09 14:05:07.012345 ''"
  by code_simp

subsection \<open>The line\<close>

lemma trailing_snoc:
  "trailing_newlines (a @ [c]) = (if c = CHR 0x0A then Suc (trailing_newlines a) else 0)"
  by (simp add: trailing_newlines_def)

lemma trailing_none: "a = [] \<or> last a \<noteq> CHR 0x0A \<Longrightarrow> trailing_newlines a = 0"
  by (cases a rule: rev_cases) (auto simp: trailing_newlines_def)

lemma trailing_append:
  "b \<noteq> [] \<Longrightarrow> a = [] \<or> last a \<noteq> CHR 0x0A \<Longrightarrow> trailing_newlines (a @ b) = trailing_newlines b"
proof (induction b rule: rev_induct)
  case Nil
  then show ?case by simp
next
  case (snoc c b)
  show ?case
  proof (cases "b = []")
    case True
    then show ?thesis using snoc.prems trailing_none [of a] by (simp add: trailing_newlines_def)
  next
    case False
    then have "trailing_newlines (a @ b) = trailing_newlines b"
      using snoc by blast
    then show ?thesis
      using trailing_snoc [of "a @ b" c] trailing_snoc [of b c] by simp
  qed
qed

lemma ends_append:
  "a = [] \<or> last a = c \<Longrightarrow> b = [] \<or> last b = c \<Longrightarrow> a @ b = [] \<or> last (a @ b) = c"
  by (auto simp: last_append)

lemma levelString_end: "levelString lvl = [] \<or> last (levelString lvl) = CHR '' ''"
  by (simp add: levelString_def levelStringMap_def)

lemma header_spec:
  assumes "gotime_ok t" "nonneg64 line"
  shows "\<exists>hdr. formatHeader logger [] lvl t file line = Inr hdr \<and> (hdr = [] \<or> last hdr = CHR '' '')"
proof -
  obtain d where d: "formatHeader_datetime logger (levelString lvl) t = Inr (levelString lvl @ d)"
    and dl: "d = [] \<or> last d = CHR '' ''"
    using datetime_spec [OF assms(1), of logger "levelString lvl"] by auto
  obtain c where c: "formatHeader_callsite logger (levelString lvl @ d) file line
       = Inr ((levelString lvl @ d) @ c)"
    and cl: "c = [] \<or> last c = CHR '' ''"
    using callsite_spec [OF assms(2), of logger "levelString lvl @ d" "file"] by auto
  have "formatHeader logger [] lvl t file line = Inr (levelString lvl @ d @ c)"
    using d c by (simp add: formatHeader_def)
  moreover have "levelString lvl @ d @ c = [] \<or> last (levelString lvl @ d @ c) = CHR '' ''"
    using ends_append [OF levelString_end [of lvl] ends_append [OF dl cl]] .
  ultimately show ?thesis by blast
qed

text \<open>
  C4 (amended). For every admitted call, the line is the header, the rendered message,
  and one newline more exactly when the message is empty or does not end with a newline;
  a second newline is never appended. So the line always ends with a newline, and it ends
  with as many newlines as the message does, or with one when the message ends with none.
\<close>

theorem line_ends_with_newline:
  assumes "callenv_ok env"
  shows "\<exists>hdr. format_line logger env lvl s
             = Inr (hdr @ s @ (if s = [] \<or> last s \<noteq> CHR 0x0A then [CHR 0x0A] else []))
           \<and> trailing_newlines (hdr @ s @ (if s = [] \<or> last s \<noteq> CHR 0x0A then [CHR 0x0A] else []))
             = max 1 (trailing_newlines s)"
proof -
  obtain fname line where fl:
    "(if flags logger AND (Lshortfile OR Llongfile) \<noteq> 0
      then (case caller env of None \<Rightarrow> (''unknown'', 0) | Some fl \<Rightarrow> fl) else ([], 0)) = (fname, line)"
    by force
  have "nonneg64 line"
    using fl assms by (auto simp: callenv_ok_def nonneg64_def split: if_splits option.splits)
  moreover have "gotime_ok (now env)" using assms by (simp add: callenv_ok_def)
  ultimately obtain hdr where h: "formatHeader logger [] lvl (now env) fname line = Inr hdr"
    and hl: "hdr = [] \<or> last hdr = CHR '' ''"
    using header_spec by blast
  have hn: "hdr = [] \<or> last hdr \<noteq> CHR 0x0A" using hl by auto
  have nth: "s \<noteq> [] \<Longrightarrow> s ! (length s - 1) = last s" by (simp add: last_conv_nth)
  have "format_line logger env lvl s
      = Inr (hdr @ s @ (if s = [] \<or> last s \<noteq> CHR 0x0A then [CHR 0x0A] else []))"
    using h fl nth by (auto simp: format_line_def Let_def)
  moreover have "trailing_newlines (hdr @ s @ (if s = [] \<or> last s \<noteq> CHR 0x0A then [CHR 0x0A] else []))
      = max 1 (trailing_newlines s)"
  proof (cases "s = []")
    case True
    then show ?thesis
      using trailing_snoc [of hdr "CHR 0x0A"] trailing_none [OF hn]
      by (simp add: trailing_newlines_def)
  next
    case False
    show ?thesis
    proof (cases "last s = CHR 0x0A")
      case True
      then obtain s' where s': "s = s' @ [CHR 0x0A]" using False by (metis append_butlast_last_id)
      have "trailing_newlines (hdr @ s) = trailing_newlines s"
        using trailing_append [OF False hn] .
      moreover have "1 \<le> trailing_newlines s" using s' by (simp add: trailing_snoc)
      ultimately show ?thesis using True False by simp
    next
      case l: False
      have "trailing_newlines s = 0" using trailing_none l by blast
      moreover have "trailing_newlines ((hdr @ s) @ [CHR 0x0A]) = Suc (trailing_newlines (hdr @ s))"
        using trailing_snoc [of "hdr @ s" "CHR 0x0A"] by simp
      moreover have "trailing_newlines (hdr @ s) = trailing_newlines s"
        using trailing_append [OF False hn] .
      ultimately show ?thesis using l False by simp
    qed
  qed
  ultimately show ?thesis by blast
qed

lemma sample_env_ok: "callenv_ok sample_env"
  by (simp add: callenv_ok_def sample_env_def sample_time_ok nonneg64_def)

theorem line_ends_with_newline_witness:
  "callenv_ok sample_env
   \<and> format_line (sample_logger Info 2 0) sample_env Error ''bye'' = Inr ''[ERROR] bye\<newline>''
   \<and> trailing_newlines ''[ERROR] bye\<newline>'' = 1"
proof -
  have e: "format_line (sample_logger Info 2 0) sample_env Error ''bye'' = Inr ''[ERROR] bye\<newline>''"
    by code_simp
  then show ?thesis
    using line_ends_with_newline [OF sample_env_ok, of "sample_logger Info 2 0" Error "''bye''"]
      sample_env_ok
    by (simp add: trailing_newlines_def)
qed

text \<open>C4 as stated fails for a message that ends with two newlines: so does the line.\<close>

theorem two_newlines_counterexample:
  "format_line (sample_logger Info 2 0) sample_env Error ''bye\<newline>\<newline>''
     = Inr ''[ERROR] bye\<newline>\<newline>''
   \<and> trailing_newlines ''[ERROR] bye\<newline>\<newline>'' = 2"
  by code_simp

section \<open>Calls\<close>

subsection \<open>The level gate\<close>

lemma logging_below: "lvl < level logger \<Longrightarrow> logging logger env lvl s = (Inr logger, [])"
  by (simp add: logging_def)

lemma logging_admitted_effects:
  "level logger \<le> lvl \<Longrightarrow> \<exists>es. snd (logging logger env lvl s) = TimeNow # es"
  by (auto simp: logging_def Let_def split: sum.splits prod.splits)

text \<open>
  C3. A leveled call whose level is below the threshold of the logger returns the logger
  as it was, sink included, and has no effect at all: no reading of the clock, no
  capture of the caller, no formatting, no write. A call is admitted if and only if its
  level is at least the threshold, in the order Trace, Debug, Info, Warn, Error; an
  admitted call starts by reading the clock.
\<close>

theorem level_gate:
  "(lvl < level logger \<longrightarrow> logging logger env lvl s = (Inr logger, []))
   \<and> (level logger \<le> lvl \<longrightarrow> (\<exists>es. snd (logging logger env lvl s) = TimeNow # es))
   \<and> (logging logger env lvl s = (Inr logger, [])) = (lvl < level logger)
   \<and> Trace < Debug \<and> Debug < Info \<and> Info < Warn \<and> Warn < Error
   \<and> BasicLogger_Trace logger env s = logging logger env Trace s
   \<and> BasicLogger_Debug logger env s = logging logger env Debug s
   \<and> BasicLogger_Info logger env s = logging logger env Info s
   \<and> BasicLogger_Warn logger env s = logging logger env Warn s
   \<and> BasicLogger_Error logger env s = logging logger env Error s"
proof -
  have a: "lvl < level logger \<longrightarrow> logging logger env lvl s = (Inr logger, [])"
    using logging_below by blast
  have b: "level logger \<le> lvl \<longrightarrow> (\<exists>es. snd (logging logger env lvl s) = TimeNow # es)"
    using logging_admitted_effects by blast
  have c: "(logging logger env lvl s = (Inr logger, [])) = (lvl < level logger)"
  proof
    assume "logging logger env lvl s = (Inr logger, [])"
    then have "snd (logging logger env lvl s) = []" by simp
    then show "lvl < level logger" using b by (cases "lvl < level logger") auto
  next
    assume "lvl < level logger"
    then show "logging logger env lvl s = (Inr logger, [])" using a by blast
  qed
  show ?thesis
    using a b c
    by (simp add: level_defs BasicLogger_Trace_def BasicLogger_Debug_def BasicLogger_Info_def
        BasicLogger_Warn_def BasicLogger_Error_def)
qed

theorem level_gate_witness:
  "Trace < level (sample_logger Warn 2 Lblocking)
   \<and> BasicLogger_Trace (sample_logger Warn 2 Lblocking) sample_env ''a''
       = (Inr (sample_logger Warn 2 Lblocking), [])
   \<and> level (sample_logger Warn 2 Lblocking) \<le> Error
   \<and> BasicLogger_Error (sample_logger Warn 2 Lblocking) sample_env ''b''
       = (Inr ((sample_logger Warn 2 Lblocking)
                 \<lparr>writer := [\<lparr>data = [''[ERROR] b\<newline>''], broken = False\<rparr>]\<rparr>),
          [TimeNow, Sprintf, WriterWrite ''[ERROR] b\<newline>''])"
proof -
  have l: "Trace < level (sample_logger Warn 2 Lblocking)" "level (sample_logger Warn 2 Lblocking) \<le> Error"
    by (simp_all add: sample_logger_def level_defs)
  have e: "logging (sample_logger Warn 2 Lblocking) sample_env Error ''b''
       = (Inr ((sample_logger Warn 2 Lblocking)
                 \<lparr>writer := [\<lparr>data = [''[ERROR] b\<newline>''], broken = False\<rparr>]\<rparr>),
          [TimeNow, Sprintf, WriterWrite ''[ERROR] b\<newline>''])"
    by code_simp
  show ?thesis
    using level_gate [of Trace "sample_logger Warn 2 Lblocking" sample_env "''a''"]
      level_gate [of Error "sample_logger Warn 2 Lblocking" sample_env "''b''"] l e
    by simp
qed

subsection \<open>The short file name and Close without a worker\<close>

text \<open>
  C7. With the short-file flag, the path is cut after its last slash, but the loop stops
  before index 0: a path whose only slash is its first byte is emitted whole, where the
  claim asks for its base name. A slash further on is found.
\<close>

theorem shortfile_root_slash:
  "has_flag (sample_logger Info 2 Lshortfile) Lshortfile
   \<and> format_line (sample_logger Info 2 Lshortfile)
        \<lparr>now = sample_time, caller = Some (''/main.go'', 42)\<rparr> Info ''x''
       = Inr ''[INFO]  /main.go:42: x\<newline>''
   \<and> format_line (sample_logger Info 2 Lshortfile)
        \<lparr>now = sample_time, caller = Some (''/home/u/main.go'', 42)\<rparr> Info ''x''
       = Inr ''[INFO]  main.go:42: x\<newline>''"
  by code_simp

text \<open>
  C8. In synchronous mode no worker runs, and \<open>Close\<close> still sends the exit command on the
  channel, where the claim asks for no channel operation: with no buffer the send never
  returns, with a buffer the command stays in the channel.
\<close>

theorem close_sends_without_worker:
  "fst (NewLogger (\<lambda>p. Some sample_sink) sample_sink ''test.log'' Info 0 Lblocking)
       = Inr (sample_logger Info 0 Lblocking)
   \<and> has_flag (sample_logger Info 0 Lblocking) Lblocking
   \<and> Close (sample_logger Info 0 Lblocking) = (Inl Blocked, [])
   \<and> fst (NewLogger (\<lambda>p. Some sample_sink) sample_sink ''test.log'' Info 1 Lblocking)
       = Inr (sample_logger Info 1 Lblocking)
   \<and> Close (sample_logger Info 1 Lblocking)
       = (Inr ((sample_logger Info 1 Lblocking)
                 \<lparr>ch := \<lparr>cap = 1, queue = [\<lparr>cmd = cmd_exit, buf = []\<rparr>]\<rparr>\<rparr>),
          [ChanSend \<lparr>cmd = cmd_exit, buf = []\<rparr>])"
  by code_simp

subsection \<open>Errors\<close>

lemma multi_Write_broken: "\<forall>w\<in>set ws. broken w \<Longrightarrow> fst (multi_Write ws p) = ws"
  by (cases ws) (simp_all add: sink_Write_def)

lemma format_line_ok:
  "callenv_ok env \<Longrightarrow> \<exists>b. format_line logger env lvl s = Inr b"
  using line_ends_with_newline by blast

lemma logging_sync:
  assumes "has_flag logger Lblocking" "level logger \<le> lvl" "callenv_ok env"
  shows "\<exists>es. logging logger env lvl s
           = (Inr (logger\<lparr>writer := fst (multi_Write (writer logger)
                                         (projr (format_line logger env lvl s)))\<rparr>), es)"
proof -
  obtain b where b: "format_line logger env lvl s = Inr b"
    using format_line_ok [OF assms(3)] by blast
  show ?thesis
    using assms(1,2) b
    by (simp add: logging_def has_flag_def Let_def split: prod.splits)
qed

lemma server_handle_config:
  "level (fst (server_handle logger m)) = level logger
   \<and> flags (fst (server_handle logger m)) = flags logger"
  by (simp add: server_handle_def split: prod.splits)

lemma chan_send_blocked:
  "(fst (chan_send logger m) = Inl Blocked)
     = (if cap (ch logger) = 0 then wg logger = 0
        else cap (ch logger) \<le> length (queue (ch logger)))"
  by (auto simp: chan_send_def split: prod.splits)

lemma chan_send_result:
  "fst (chan_send logger m) = Inl Blocked
   \<or> (\<exists>l. fst (chan_send logger m) = Inr l \<and> level l = level logger \<and> flags l = flags logger)"
proof (cases "cap (ch logger) = 0")
  case True
  show ?thesis
  proof (cases "0 < wg logger")
    case w: True
    have "fst (chan_send logger m) = Inr (fst (server_handle logger m))"
      using True w by (simp add: chan_send_def split: prod.splits)
    then show ?thesis using server_handle_config [of logger m] by simp
  next
    case False
    then show ?thesis using True by (simp add: chan_send_def)
  qed
next
  case False
  then show ?thesis by (simp add: chan_send_def)
qed

lemma logging_async_fst:
  assumes "\<not> has_flag logger Lblocking" "level logger \<le> lvl" "format_line logger env lvl s = Inr b"
  shows "fst (logging logger env lvl s) = fst (chan_send logger \<lparr>cmd = cmd_write, buf = b\<rparr>)"
  using assms by (simp add: logging_def has_flag_def Let_def split: prod.splits)

lemma logging_result:
  assumes "callenv_ok env"
  shows "fst (logging logger env lvl s) = Inl Blocked
   \<or> (\<exists>l. fst (logging logger env lvl s) = Inr l \<and> level l = level logger \<and> flags l = flags logger)"
proof (cases "lvl < level logger")
  case True
  then show ?thesis by (simp add: logging_def)
next
  case False
  then have adm: "level logger \<le> lvl" by simp
  obtain b where b: "format_line logger env lvl s = Inr b"
    using format_line_ok [OF assms] by blast
  show ?thesis
  proof (cases "has_flag logger Lblocking")
    case True
    then obtain es where "logging logger env lvl s
        = (Inr (logger\<lparr>writer := fst (multi_Write (writer logger)
                                      (projr (format_line logger env lvl s)))\<rparr>), es)"
      using logging_sync [OF _ adm assms] by blast
    then show ?thesis by simp
  next
    case False
    then show ?thesis
      using logging_async_fst [OF False adm b] chan_send_result [of logger "\<lparr>cmd = cmd_write, buf = b\<rparr>"]
      by simp
  qed
qed

lemma logging_async_blocked:
  assumes "\<not> has_flag logger Lblocking" "level logger \<le> lvl" "callenv_ok env"
  shows "(fst (logging logger env lvl s) = Inl Blocked)
     = (if cap (ch logger) = 0 then wg logger = 0
        else cap (ch logger) \<le> length (queue (ch logger)))"
proof -
  obtain b where b: "format_line logger env lvl s = Inr b"
    using format_line_ok [OF assms(3)] by blast
  show ?thesis
    using logging_async_fst [OF assms(1,2) b] chan_send_blocked [of logger "\<lparr>cmd = cmd_write, buf = b\<rparr>"]
    by simp
qed

lemma logging_async_handoff_broken:
  assumes "\<not> has_flag logger Lblocking" "level logger \<le> lvl" "callenv_ok env"
    and "cap (ch logger) = 0" "0 < wg logger" "\<forall>w\<in>set (writer logger). broken w"
  shows "fst (logging logger env lvl s) = Inr logger"
proof -
  obtain b where b: "format_line logger env lvl s = Inr b"
    using format_line_ok [OF assms(3)] by blast
  have "fst (chan_send logger \<lparr>cmd = cmd_write, buf = b\<rparr>) = Inr logger"
    using assms(4-6) multi_Write_broken [of "writer logger" b]
    by (auto simp: chan_send_def server_handle_def split: prod.splits)
  then show ?thesis using logging_async_fst [OF assms(1,2) b] by simp
qed


text \<open>
  C9. \<open>NewLogger\<close> returns its error, and no logger, exactly when the file cannot be opened,
  and it tries to open the file once; when the file opens and the buffer size is not
  negative it returns the logger. A leveled call, in either mode and whatever the sinks
  do, returns (with the level and the flags of the logger as they were) or waits on the
  channel; no error of a sink reaches it. In synchronous mode an admitted call returns
  with only the writer of the logger changed, and the logger as it was when the sinks
  refuse the write. In asynchronous mode an admitted call waits exactly when the channel
  cannot take the message, which the sinks have no part in; handed to the worker over a
  channel without buffer, a refused write still lets the call return. The worker goes on
  after a write in the same way.
\<close>

theorem open_error_and_dropped_write_errors:
  "(fst (NewLogger openFile stdout path lvl bufferSize flgs) = Inl FileCreationFail)
      = (openFile path = None)
   \<and> (openFile path = None \<longrightarrow>
        NewLogger openFile stdout path lvl bufferSize flgs
          = (Inl FileCreationFail, [OpenFile path, Printf]))
   \<and> (openFile path = Some logFile \<and> 0 \<le> bufferSize \<longrightarrow>
        NewLogger openFile stdout path lvl bufferSize flgs
          = (Inr \<lparr>level = lvl, flags = flgs,
                   writer = (if flgs AND Lstdout \<noteq> 0 then [logFile, stdout] else [logFile]),
                   ch = \<lparr>cap = nat bufferSize, queue = []\<rparr>,
                   wg = (if flgs AND Lblocking = 0 then 1 else 0)\<rparr>,
             [OpenFile path]))
   \<and> filter is_OpenFile (snd (NewLogger openFile stdout path lvl bufferSize flgs)) = [OpenFile path]
   \<and> (callenv_ok env \<longrightarrow>
        fst (logging logger env lvl' s) = Inl Blocked
        \<or> (\<exists>l. fst (logging logger env lvl' s) = Inr l \<and> level l = level logger
                \<and> flags l = flags logger))
   \<and> (has_flag logger Lblocking \<and> level logger \<le> lvl' \<and> callenv_ok env \<longrightarrow>
        (\<exists>ws es. logging logger env lvl' s = (Inr (logger\<lparr>writer := ws\<rparr>), es))
        \<and> ((\<forall>w\<in>set (writer logger). broken w) \<longrightarrow> fst (logging logger env lvl' s) = Inr logger))
   \<and> (\<not> has_flag logger Lblocking \<and> level logger \<le> lvl' \<and> callenv_ok env \<longrightarrow>
        (fst (logging logger env lvl' s) = Inl Blocked)
          = (if cap (ch logger) = 0 then wg logger = 0
             else cap (ch logger) \<le> length (queue (ch logger)))
        \<and> (cap (ch logger) = 0 \<and> 0 < wg logger \<and> (\<forall>w\<in>set (writer logger). broken w) \<longrightarrow>
              fst (logging logger env lvl' s) = Inr logger))
   \<and> (cmd m = cmd_write \<longrightarrow>
        (\<exists>ws. server_handle logger m = (logger\<lparr>writer := ws\<rparr>, [ChanRecv m, WriterWrite (buf m)]))
        \<and> ((\<forall>w\<in>set (writer logger). broken w) \<longrightarrow> fst (server_handle logger m) = logger))
   \<and> BasicLogger_Trace logger env s = logging logger env Trace s
   \<and> BasicLogger_Debug logger env s = logging logger env Debug s
   \<and> BasicLogger_Info logger env s = logging logger env Info s
   \<and> BasicLogger_Warn logger env s = logging logger env Warn s
   \<and> BasicLogger_Error logger env s = logging logger env Error s"
proof (intro conjI impI)
  show "(fst (NewLogger openFile stdout path lvl bufferSize flgs) = Inl FileCreationFail)
      = (openFile path = None)"
    by (auto simp: NewLogger_def Let_def make_chan_def split: option.splits)
  show "filter is_OpenFile (snd (NewLogger openFile stdout path lvl bufferSize flgs)) = [OpenFile path]"
    by (auto simp: NewLogger_def Let_def make_chan_def split: option.splits)
next
  assume "openFile path = None"
  then show "NewLogger openFile stdout path lvl bufferSize flgs
          = (Inl FileCreationFail, [OpenFile path, Printf])"
    by (simp add: NewLogger_def)
next
  assume "openFile path = Some logFile \<and> 0 \<le> bufferSize"
  then show "NewLogger openFile stdout path lvl bufferSize flgs
          = (Inr \<lparr>level = lvl, flags = flgs,
                   writer = (if flgs AND Lstdout \<noteq> 0 then [logFile, stdout] else [logFile]),
                   ch = \<lparr>cap = nat bufferSize, queue = []\<rparr>,
                   wg = (if flgs AND Lblocking = 0 then 1 else 0)\<rparr>,
             [OpenFile path])"
    by (simp add: NewLogger_def make_chan_def Let_def)
next
  assume "callenv_ok env"
  then show "fst (logging logger env lvl' s) = Inl Blocked
        \<or> (\<exists>l. fst (logging logger env lvl' s) = Inr l \<and> level l = level logger
                \<and> flags l = flags logger)"
    by (rule logging_result)
next
  assume a: "has_flag logger Lblocking \<and> level logger \<le> lvl' \<and> callenv_ok env"
  then obtain es where l: "logging logger env lvl' s
           = (Inr (logger\<lparr>writer := fst (multi_Write (writer logger)
                                         (projr (format_line logger env lvl' s)))\<rparr>), es)"
    using logging_sync by blast
  then show "\<exists>ws es. logging logger env lvl' s = (Inr (logger\<lparr>writer := ws\<rparr>), es)"
    by blast
  assume "\<forall>w\<in>set (writer logger). broken w"
  then show "fst (logging logger env lvl' s) = Inr logger"
    using l by (simp add: multi_Write_broken)
next
  assume a: "\<not> has_flag logger Lblocking \<and> level logger \<le> lvl' \<and> callenv_ok env"
  then show "(fst (logging logger env lvl' s) = Inl Blocked)
          = (if cap (ch logger) = 0 then wg logger = 0
             else cap (ch logger) \<le> length (queue (ch logger)))"
    using logging_async_blocked by blast
  assume "cap (ch logger) = 0 \<and> 0 < wg logger \<and> (\<forall>w\<in>set (writer logger). broken w)"
  then show "fst (logging logger env lvl' s) = Inr logger"
    using a logging_async_handoff_broken by blast
next
  assume c: "cmd m = cmd_write"
  then show "\<exists>ws. server_handle logger m = (logger\<lparr>writer := ws\<rparr>, [ChanRecv m, WriterWrite (buf m)])"
    by (auto simp: server_handle_def split: prod.splits)
  assume "\<forall>w\<in>set (writer logger). broken w"
  then show "fst (server_handle logger m) = logger"
    using c multi_Write_broken [of "writer logger" "buf m"]
    by (auto simp: server_handle_def split: prod.splits)
qed (simp_all add: BasicLogger_Trace_def BasicLogger_Debug_def BasicLogger_Info_def
    BasicLogger_Warn_def BasicLogger_Error_def)


theorem open_error_and_dropped_write_errors_witness:
  "NewLogger (\<lambda>p. None) sample_sink ''/no/such/dir/test.log'' Info 2 0
      = (Inl FileCreationFail, [OpenFile ''/no/such/dir/test.log'', Printf])
   \<and> (0::int) \<le> 2
   \<and> NewLogger (\<lambda>p. Some sample_sink) sample_sink ''test.log'' Info 2 0
      = (Inr (sample_logger Info 2 0), [OpenFile ''test.log''])
   \<and> has_flag ((sample_logger Info 2 Lblocking)\<lparr>writer := [broken_sink]\<rparr>) Lblocking
   \<and> level ((sample_logger Info 2 Lblocking)\<lparr>writer := [broken_sink]\<rparr>) \<le> Error
   \<and> callenv_ok sample_env
   \<and> broken broken_sink
   \<and> fst (logging ((sample_logger Info 2 Lblocking)\<lparr>writer := [broken_sink]\<rparr>) sample_env Error ''b'')
       = Inr ((sample_logger Info 2 Lblocking)\<lparr>writer := [broken_sink]\<rparr>)
   \<and> \<not> has_flag ((sample_logger Info 0 0)\<lparr>writer := [broken_sink]\<rparr>) Lblocking
   \<and> level ((sample_logger Info 0 0)\<lparr>writer := [broken_sink]\<rparr>) \<le> Error
   \<and> cap (ch ((sample_logger Info 0 0)\<lparr>writer := [broken_sink]\<rparr>)) = 0
   \<and> 0 < wg ((sample_logger Info 0 0)\<lparr>writer := [broken_sink]\<rparr>)
   \<and> fst (logging ((sample_logger Info 0 0)\<lparr>writer := [broken_sink]\<rparr>) sample_env Error ''b'')
       = Inr ((sample_logger Info 0 0)\<lparr>writer := [broken_sink]\<rparr>)
   \<and> fst (logging ((sample_logger Info 0 0)\<lparr>writer := [broken_sink], wg := 0\<rparr>) sample_env Error ''b'')
       = Inl Blocked
   \<and> cmd \<lparr>cmd = cmd_write, buf = ''b\<newline>''\<rparr> = cmd_write
   \<and> fst (server_handle ((sample_logger Info 2 0)\<lparr>writer := [broken_sink]\<rparr>)
            \<lparr>cmd = cmd_write, buf = ''b\<newline>''\<rparr>)
       = (sample_logger Info 2 0)\<lparr>writer := [broken_sink]\<rparr>"
proof -
  let ?L = "(sample_logger Info 2 Lblocking)\<lparr>writer := [broken_sink]\<rparr>"
  let ?A = "(sample_logger Info 2 0)\<lparr>writer := [broken_sink]\<rparr>"
  let ?H = "(sample_logger Info 0 0)\<lparr>writer := [broken_sink]\<rparr>"
  let ?S = "(sample_logger Info 0 0)\<lparr>writer := [broken_sink], wg := 0\<rparr>"
  let ?m = "\<lparr>cmd = cmd_write, buf = ''b\<newline>''\<rparr>"
  have o: "(\<lambda>p::string. Some sample_sink) ''test.log'' = Some sample_sink \<and> (0::int) \<le> 2"
    "(\<lambda>p::string. None :: sink option) ''/no/such/dir/test.log'' = None"
    by simp_all
  have n1: "NewLogger (\<lambda>p. None) sample_sink ''/no/such/dir/test.log'' Info 2 0
      = (Inl FileCreationFail, [OpenFile ''/no/such/dir/test.log'', Printf])"
    using open_error_and_dropped_write_errors
        [where openFile = "\<lambda>p. None" and path = "''/no/such/dir/test.log''" and stdout = sample_sink
           and lvl = Info and bufferSize = 2 and flgs = 0]
    by simp
  have n2: "NewLogger (\<lambda>p. Some sample_sink) sample_sink ''test.log'' Info 2 0
      = (Inr (sample_logger Info 2 0), [OpenFile ''test.log''])"
    using open_error_and_dropped_write_errors
        [where openFile = "\<lambda>p. Some sample_sink" and path = "''test.log''" and stdout = sample_sink
           and lvl = Info and bufferSize = 2 and flgs = 0 and logFile = sample_sink]
    by (simp add: sample_logger_def flag_defs)
  have h: "has_flag ?L Lblocking" "level ?L \<le> Error" "\<forall>w\<in>set (writer ?L). broken w"
    "\<forall>w\<in>set (writer ?A). broken w" "\<not> has_flag ?H Lblocking" "level ?H \<le> Error"
    "cap (ch ?H) = 0" "0 < wg ?H" "\<forall>w\<in>set (writer ?H). broken w"
    "\<not> has_flag ?S Lblocking" "level ?S \<le> Error" "cap (ch ?S) = 0" "wg ?S = 0"
    by (simp_all add: has_flag_def sample_logger_def flag_defs level_defs broken_sink_def)
  have b: "broken broken_sink" by (simp add: broken_sink_def)
  note t = open_error_and_dropped_write_errors
  have l: "fst (logging ?L sample_env Error ''b'') = Inr ?L"
    using t [where logger = ?L and lvl' = Error and env = sample_env and s = "''b''"] h sample_env_ok
    by simp
  have a: "fst (logging ?H sample_env Error ''b'') = Inr ?H"
    using t [where logger = ?H and lvl' = Error and env = sample_env and s = "''b''"] h sample_env_ok
    by simp
  have k: "fst (logging ?S sample_env Error ''b'') = Inl Blocked"
    using t [where logger = ?S and lvl' = Error and env = sample_env and s = "''b''"] h sample_env_ok
    by simp
  have v: "fst (server_handle ?A ?m) = ?A"
    using t [where logger = ?A and m = ?m] h by simp
  show ?thesis
    using t [where logger = ?L and lvl' = Error and env = sample_env and s = "''b''"]
      n1 n2 h b l a k v sample_env_ok
    by simp
qed

section \<open>Schedules of an asynchronous logger\<close>

lemma wrote_Nil [simp]: "wrote [] ws = ws"
  by (simp add: wrote_def)

lemma wrote_wrote: "wrote b (wrote a ws) = wrote (a @ b) ws"
  by (simp add: wrote_def)

lemma healthy_wrote [simp]: "healthy (wrote ps ws) = healthy ws"
  by (simp add: healthy_def wrote_def)

lemma multi_Write_healthy: "healthy ws \<Longrightarrow> multi_Write ws p = (wrote [p] ws, False)"
  by (induction ws) (simp_all add: healthy_def wrote_def sink_Write_def)

lemma run_append:
  "run lg (a @ b) =
     (case run lg a of
        (Inl e, tr) \<Rightarrow> (Inl e, tr)
      | (Inr l, tr) \<Rightarrow> (case run l b of (r, tr') \<Rightarrow> (r, tr @ tr')))"
  by (induction a arbitrary: lg) (auto split: prod.splits sum.splits)

lemma run_append_Inr:
  "run lg (a @ b) = (Inr lg', tr) \<Longrightarrow>
   \<exists>l ta tb. run lg a = (Inr l, ta) \<and> run l b = (Inr lg', tb)"
  by (auto simp: run_append split: prod.splits sum.splits)

lemma run_Cons_Inr:
  "run lg (e # es) = (Inr lg', tr) \<Longrightarrow>
   \<exists>l ta tb. step lg e = (Inr l, ta) \<and> run l es = (Inr lg', tb)"
  by (auto split: prod.splits sum.splits)

lemma chan_send_active:
  assumes "active lg" "chan_send lg \<lparr>cmd = cmd_write, buf = b\<rparr> = (Inr lg', tr)"
  shows "active lg' \<and> same_config lg' lg \<and> wg lg' = wg lg
     \<and> (\<exists>w. writer lg' = wrote w (writer lg)
            \<and> w @ map buf (queue (ch lg')) = map buf (queue (ch lg)) @ [b])"
proof (cases "cap (ch lg) = 0")
  case True
  then have q: "queue (ch lg) = []" using assms(1) by (simp add: active_def)
  have "lg' = lg\<lparr>writer := wrote [b] (writer lg)\<rparr>"
    using assms True
    by (auto simp: chan_send_def server_handle_def active_def multi_Write_healthy
        split: if_splits prod.splits)
  then show ?thesis
    using assms(1) q True by (auto simp: active_def same_config_def)
next
  case False
  then have "lg' = lg\<lparr>ch := (ch lg)\<lparr>queue := queue (ch lg) @ [\<lparr>cmd = cmd_write, buf = b\<rparr>]\<rparr>\<rparr>"
    using assms(2) by (auto simp: chan_send_def split: if_splits)
  then show ?thesis
    using assms(1) False by (auto simp: active_def same_config_def intro: exI [of _ "[]"])
qed

lemma logging_active:
  assumes "active lg" "logging lg env lvl s = (Inr lg', tr)"
  shows "active lg' \<and> same_config lg' lg \<and> wg lg' = wg lg
     \<and> (\<exists>w. writer lg' = wrote w (writer lg)
            \<and> w @ map buf (queue (ch lg'))
                = map buf (queue (ch lg)) @ issued lg [Call lvl env s])"
proof (cases "lvl < level lg")
  case True
  then have "lg' = lg" using assms(2) by (simp add: logging_def)
  then show ?thesis using assms(1) True by (auto simp: same_config_def intro: exI [of _ "[]"])
next
  case False
  then obtain b where b: "format_line lg env lvl s = Inr b"
    using assms(2) by (auto simp: logging_def Let_def split: sum.splits)
  have "\<exists>tr'. chan_send lg \<lparr>cmd = cmd_write, buf = b\<rparr> = (Inr lg', tr')"
    using assms b False by (auto simp: logging_def Let_def active_def split: prod.splits)
  then obtain tr' where "chan_send lg \<lparr>cmd = cmd_write, buf = b\<rparr> = (Inr lg', tr')" by blast
  from chan_send_active [OF assms(1) this] show ?thesis
    using False b by simp
qed

lemma server_active:
  assumes "active lg" "server_iter lg = (Inr lg', tr)"
  shows "active lg' \<and> same_config lg' lg \<and> wg lg' = wg lg
     \<and> (\<exists>w. writer lg' = wrote w (writer lg)
            \<and> w @ map buf (queue (ch lg')) = map buf (queue (ch lg)))"
proof -
  obtain m rest where q: "queue (ch lg) = m # rest"
    using assms(2) by (cases "queue (ch lg)") (auto simp: server_iter_def split: if_splits)
  then have w: "cmd m = cmd_write" using assms(1) by (simp add: active_def)
  have "lg' = lg\<lparr>ch := (ch lg)\<lparr>queue := rest\<rparr>, writer := wrote [buf m] (writer lg)\<rparr>"
    using assms q w
    by (auto simp: server_iter_def server_handle_def active_def multi_Write_healthy
        split: if_splits prod.splits)
  then show ?thesis
    using assms(1) q by (auto simp: active_def same_config_def)
qed

lemma format_line_flags:
  assumes "flags a = flags b"
  shows "format_line a env lvl s = format_line b env lvl s"
  unfolding format_line_def formatHeader_def formatHeader_datetime_def formatHeader_callsite_def
  by (simp only: assms)

lemma issued_same_config: "level a = level b \<Longrightarrow> flags a = flags b \<Longrightarrow> issued a evs = issued b evs"
proof (induction evs)
  case Nil
  then show ?case by simp
next
  case (Cons e evs)
  then show ?case
    by (cases e) (simp_all add: format_line_flags [of a b])
qed

lemma issued_append: "issued lg (a @ b) = issued lg a @ issued lg b"
proof (induction a)
  case Nil
  then show ?case by simp
next
  case (Cons e a)
  then show ?case by (cases e) simp_all
qed

lemma step_active:
  assumes "active lg" "e \<noteq> CloseSend" "step lg e = (Inr lg', tr)"
  shows "active lg' \<and> same_config lg' lg \<and> wg lg' = wg lg
     \<and> (\<exists>w. writer lg' = wrote w (writer lg)
            \<and> w @ map buf (queue (ch lg')) = map buf (queue (ch lg)) @ issued lg [e])"
proof (cases e)
  case (Call lvl env s)
  then show ?thesis using logging_active [OF assms(1)] assms(3) by simp
next
  case Server
  then show ?thesis using server_active [OF assms(1)] assms(3) by simp
next
  case CloseSend
  then show ?thesis using assms(2) by simp
next
  case CloseWait
  then show ?thesis using assms(1,3) by (simp add: Close_wait_def active_def)
qed

lemma run_active:
  "active lg \<Longrightarrow> CloseSend \<notin> set evs \<Longrightarrow> run lg evs = (Inr lg', tr) \<Longrightarrow>
   active lg' \<and> same_config lg' lg \<and> wg lg' = wg lg
     \<and> (\<exists>w. writer lg' = wrote w (writer lg)
            \<and> w @ map buf (queue (ch lg')) = map buf (queue (ch lg)) @ issued lg evs)"
proof (induction evs arbitrary: lg tr)
  case Nil
  then show ?case by (auto simp: same_config_def intro: exI [of _ "[]"])
next
  case (Cons e evs)
  obtain l ta tb where s: "step lg e = (Inr l, ta)" and r: "run l evs = (Inr lg', tb)"
    using run_Cons_Inr [OF Cons.prems(3)] by blast
  have e: "e \<noteq> CloseSend" and evs: "CloseSend \<notin> set evs" using Cons.prems(2) by auto
  from step_active [OF Cons.prems(1) e s]
  obtain w1 where a1: "active l" and c1: "same_config l lg" and g1: "wg l = wg lg"
    and w1: "writer l = wrote w1 (writer lg)"
    and q1: "w1 @ map buf (queue (ch l)) = map buf (queue (ch lg)) @ issued lg [e]"
    by blast
  from Cons.IH [OF a1 evs r]
  obtain w2 where a2: "active lg'" and c2: "same_config lg' l" and g2: "wg lg' = wg l"
    and w2: "writer lg' = wrote w2 (writer l)"
    and q2: "w2 @ map buf (queue (ch lg')) = map buf (queue (ch l)) @ issued l evs"
    by blast
  have i: "issued l evs = issued lg evs"
    using c1 by (intro issued_same_config) (simp_all add: same_config_def)
  have "issued lg (e # evs) = issued lg [e] @ issued lg evs"
    using issued_append [of lg "[e]" evs] by simp
  then have "(w1 @ w2) @ map buf (queue (ch lg')) = map buf (queue (ch lg)) @ issued lg (e # evs)"
    using q1 q2 i by (metis append.assoc)
  moreover have "writer lg' = wrote (w1 @ w2) (writer lg)"
    using w1 w2 by (simp add: wrote_wrote)
  ultimately show ?case
    using a2 c1 c2 g1 g2 by (auto simp: same_config_def)
qed

lemma drain_active:
  "active lg \<Longrightarrow> n = length (queue (ch lg)) \<Longrightarrow>
   \<exists>lg' tr. run lg (replicate n Server) = (Inr lg', tr) \<and> queue (ch lg') = []"
proof (induction n arbitrary: lg)
  case 0
  then show ?case by simp
next
  case (Suc n)
  then obtain m rest where q: "queue (ch lg) = m # rest" by (cases "queue (ch lg)") auto
  define l where "l = lg\<lparr>ch := (ch lg)\<lparr>queue := rest\<rparr>, writer := wrote [buf m] (writer lg)\<rparr>"
  have s: "server_iter lg = (Inr l, [ChanRecv m, WriterWrite (buf m)])"
    using Suc.prems(1) q
    by (simp add: l_def server_iter_def server_handle_def active_def multi_Write_healthy)
  have ql: "queue (ch l) = rest" by (simp add: l_def)
  have "active l" using server_active [OF Suc.prems(1) s] by blast
  moreover have "n = length (queue (ch l))" using Suc.prems(2) q ql by simp
  ultimately obtain lg' tr where "run l (replicate n Server) = (Inr lg', tr)" "queue (ch lg') = []"
    using Suc.IH by blast
  then show ?case using s by simp
qed

lemma issued_Servers [simp]: "issued lg (replicate n Server) = []"
  by (induction n) simp_all

lemma NewLogger_active:
  assumes "fst (NewLogger openFile stdout path lvl bufferSize flgs) = Inr lg0"
    and "flgs AND Lblocking = 0" and "healthy (writer lg0)"
  shows "active lg0 \<and> queue (ch lg0) = []"
  using assms
  by (auto simp: NewLogger_def Let_def make_chan_def active_def split: option.splits if_splits)



lemma chan_send_closing:
  assumes "closing lg pend" "chan_send lg m = (Inr lg', tr)"
  shows "closing lg' pend \<and> writer lg' = writer lg \<and> level lg' = level lg \<and> flags lg' = flags lg
     \<and> wg lg' = wg lg"
proof -
  have c: "0 < cap (ch lg)"
  proof (rule ccontr)
    assume "\<not> 0 < cap (ch lg)"
    then have z: "cap (ch lg) = 0" by simp
    then have "wg lg = 0" using assms(1) by (simp add: closing_def)
    then have "chan_send lg m = (Inl Blocked, [])" using z by (simp add: chan_send_def)
    then show False using assms(2) by simp
  qed
  have l: "lg' = lg\<lparr>ch := (ch lg)\<lparr>queue := queue (ch lg) @ [m]\<rparr>\<rparr>"
  proof (cases "length (queue (ch lg)) < cap (ch lg)")
    case True
    then show ?thesis using assms(2) c by (simp add: chan_send_def)
  next
    case False
    then show ?thesis using assms(2) c by (simp add: chan_send_def)
  qed
  have k: "flags lg' AND Lblocking = 0" "healthy (writer lg')" "cap (ch lg') = cap (ch lg)"
    "wg lg' = wg lg"
    using assms(1) l by (simp_all add: closing_def)
  have "closing lg' pend"
  proof (cases "wg lg = 0")
    case True
    then have "pend = []" using assms(1) by (simp add: closing_def)
    then show ?thesis using True k by (simp add: closing_def)
  next
    case False
    then have "wg lg = 1 \<and> (\<exists>ws x later. queue (ch lg) = ws @ x # later
        \<and> (\<forall>m\<in>set ws. cmd m = cmd_write) \<and> cmd x \<noteq> cmd_write \<and> pend = map buf ws)"
      using assms(1) by (simp add: closing_def)
    then obtain ws x later where g: "wg lg = 1" and q: "queue (ch lg) = ws @ x # later"
      and w: "\<forall>m\<in>set ws. cmd m = cmd_write" "cmd x \<noteq> cmd_write" "pend = map buf ws"
      by blast
    have "queue (ch lg') = ws @ x # (later @ [m])" using l q by simp
    then have "\<exists>ws x later. queue (ch lg') = ws @ x # later
        \<and> (\<forall>m\<in>set ws. cmd m = cmd_write) \<and> cmd x \<noteq> cmd_write \<and> pend = map buf ws"
      using w by blast
    then show ?thesis using k g c unfolding closing_def by simp
  qed
  then show ?thesis using l by simp
qed

lemma logging_closing:
  assumes "closing lg pend" "logging lg env lvl s = (Inr lg', tr)"
  shows "closing lg' pend \<and> writer lg' = writer lg \<and> level lg' = level lg \<and> flags lg' = flags lg
     \<and> wg lg' = wg lg"
proof (cases "lvl < level lg")
  case True
  then have "lg' = lg" using assms(2) by (simp add: logging_def)
  then show ?thesis using assms(1) by simp
next
  case False
  then obtain b where b: "format_line lg env lvl s = Inr b"
    using assms(2) by (auto simp: logging_def Let_def split: sum.splits)
  have "\<exists>tr'. chan_send lg \<lparr>cmd = cmd_write, buf = b\<rparr> = (Inr lg', tr')"
    using assms b False by (auto simp: logging_def Let_def closing_def split: prod.splits)
  then show ?thesis using chan_send_closing [OF assms(1)] by blast
qed

lemma server_closing:
  assumes "closing lg pend" "server_iter lg = (Inr lg', tr)"
  shows "\<exists>w pend'. closing lg' pend' \<and> writer lg' = wrote w (writer lg) \<and> pend = w @ pend'
     \<and> level lg' = level lg \<and> flags lg' = flags lg \<and> wg lg' \<le> wg lg
     \<and> (wg lg' = 0 \<or> length pend' < length pend)"
proof -
  have g: "wg lg = 1"
    using assms by (auto simp: closing_def server_iter_def split: if_splits)
  then obtain ws x later where q: "queue (ch lg) = ws @ x # later"
      "\<forall>m\<in>set ws. cmd m = cmd_write" "cmd x \<noteq> cmd_write" "pend = map buf ws"
      and c: "0 < cap (ch lg)"
    using assms(1) by (auto simp: closing_def)
  show ?thesis
  proof (cases ws)
    case Nil
    then have "lg' = lg\<lparr>ch := (ch lg)\<lparr>queue := later\<rparr>, wg := 0\<rparr>"
      using assms(2) q g by (simp add: server_iter_def server_handle_def)
    then show ?thesis
      using assms(1) q Nil by (auto simp: closing_def intro: exI [of _ "[]"])
  next
    case (Cons m ws')
    then have l: "lg' = lg\<lparr>ch := (ch lg)\<lparr>queue := ws' @ x # later\<rparr>, writer := wrote [buf m] (writer lg)\<rparr>"
      using assms q g
      by (simp add: server_iter_def server_handle_def closing_def multi_Write_healthy)
    have "closing lg' (map buf ws')"
      using assms(1) l q Cons g c unfolding closing_def by auto
    then show ?thesis
      using l q(4) Cons g by (intro exI [of _ "[buf m]"] exI [of _ "map buf ws'"]) simp
  qed
qed

lemma step_closing:
  assumes "closing lg pend" "step lg e = (Inr lg', tr)"
  shows "\<exists>w pend'. closing lg' pend' \<and> writer lg' = wrote w (writer lg) \<and> pend = w @ pend'
     \<and> level lg' = level lg \<and> flags lg' = flags lg \<and> wg lg' \<le> wg lg"
proof (cases "e = Server")
  case True
  then show ?thesis using server_closing [OF assms(1)] assms(2) by fastforce
next
  case False
  have "closing lg' pend \<and> writer lg' = writer lg \<and> level lg' = level lg \<and> flags lg' = flags lg
     \<and> wg lg' = wg lg"
  proof (cases e)
    case (Call lvl env s)
    then show ?thesis using logging_closing [OF assms(1)] assms(2) by simp
  next
    case Server
    then show ?thesis using False by simp
  next
    case CloseSend
    then show ?thesis using chan_send_closing [OF assms(1)] assms(2) by (simp add: Close_send_def)
  next
    case CloseWait
    then show ?thesis using assms by (auto simp: Close_wait_def split: if_splits)
  qed
  then have "closing lg' pend \<and> writer lg' = wrote [] (writer lg) \<and> pend = [] @ pend
     \<and> level lg' = level lg \<and> flags lg' = flags lg \<and> wg lg' \<le> wg lg"
    by simp
  then show ?thesis by blast
qed

lemma run_closing:
  "closing lg pend \<Longrightarrow> run lg evs = (Inr lg', tr) \<Longrightarrow>
   \<exists>w pend'. closing lg' pend' \<and> writer lg' = wrote w (writer lg) \<and> pend = w @ pend'
     \<and> level lg' = level lg \<and> flags lg' = flags lg \<and> wg lg' \<le> wg lg"
proof (induction evs arbitrary: lg pend tr)
  case Nil
  then have "closing lg' pend \<and> writer lg' = wrote [] (writer lg) \<and> pend = [] @ pend
     \<and> level lg' = level lg \<and> flags lg' = flags lg \<and> wg lg' \<le> wg lg"
    by simp
  then show ?case by blast
next
  case (Cons e evs)
  obtain l ta tb where s: "step lg e = (Inr l, ta)" and r: "run l evs = (Inr lg', tb)"
    using run_Cons_Inr [OF Cons.prems(2)] by blast
  from step_closing [OF Cons.prems(1) s]
  obtain w1 p1 where c1: "closing l p1" and w1: "writer l = wrote w1 (writer lg)"
    and p1: "pend = w1 @ p1" and k1: "level l = level lg" "flags l = flags lg" "wg l \<le> wg lg"
    by blast
  from Cons.IH [OF c1 r]
  obtain w2 p2 where c2: "closing lg' p2" and w2: "writer lg' = wrote w2 (writer l)"
    and p2: "p1 = w2 @ p2" and k2: "level lg' = level l" "flags lg' = flags l" "wg lg' \<le> wg l"
    by blast
  have "writer lg' = wrote (w1 @ w2) (writer lg)" using w1 w2 by (simp add: wrote_wrote)
  moreover have "pend = (w1 @ w2) @ p2" using p1 p2 by simp
  ultimately have "closing lg' p2 \<and> writer lg' = wrote (w1 @ w2) (writer lg) \<and> pend = (w1 @ w2) @ p2
     \<and> level lg' = level lg \<and> flags lg' = flags lg \<and> wg lg' \<le> wg lg"
    using c2 k1 k2 by simp
  then show ?case by blast
qed

lemma Close_send_active:
  assumes "active lg" "Close_send lg = (Inr lg', tr)"
  shows "closing lg' (map buf (queue (ch lg))) \<and> writer lg' = writer lg
     \<and> level lg' = level lg \<and> flags lg' = flags lg"
proof (cases "cap (ch lg) = 0")
  case True
  then have q: "queue (ch lg) = []" using assms(1) by (simp add: active_def)
  have "lg' = lg\<lparr>wg := 0\<rparr>"
    using assms True
    by (auto simp: Close_send_def chan_send_def server_handle_def active_def cmd_exit_def
        cmd_write_def split: if_splits)
  then show ?thesis using assms(1) q by (simp add: closing_def active_def)
next
  case False
  then have l: "lg' = lg\<lparr>ch := (ch lg)\<lparr>queue := queue (ch lg) @ [\<lparr>cmd = cmd_exit, buf = []\<rparr>]\<rparr>\<rparr>"
    using assms(2) by (auto simp: Close_send_def chan_send_def split: if_splits)
  have "\<exists>ws x later. queue (ch lg') = ws @ x # later \<and> (\<forall>m\<in>set ws. cmd m = cmd_write)
      \<and> cmd x \<noteq> cmd_write \<and> map buf (queue (ch lg)) = map buf ws"
    using assms(1) l
    by (intro exI [of _ "queue (ch lg)"] exI [of _ "\<lparr>cmd = cmd_exit, buf = []\<rparr>"] exI [of _ "[]"])
      (simp add: active_def cmd_exit_def cmd_write_def)
  then show ?thesis
    using assms(1) l False by (simp add: closing_def active_def)
qed

lemma server_enabled:
  assumes "closing lg pend" "wg lg \<noteq> 0"
  shows "\<exists>l es. server_iter lg = (Inr l, es)"
proof -
  obtain ws x later where "queue (ch lg) = ws @ x # later" and g: "wg lg = 1"
    using assms by (auto simp: closing_def)
  then obtain m rest where "queue (ch lg) = m # rest" by (cases ws) auto
  then show ?thesis using g by (simp add: server_iter_def split: prod.splits)
qed

lemma finish_closing:
  "closing lg pend \<Longrightarrow> \<exists>k lg' tr. run lg (replicate k Server) = (Inr lg', tr) \<and> wg lg' = 0"
proof (induction "length pend" arbitrary: lg pend rule: less_induct)
  case less
  show ?case
  proof (cases "wg lg = 0")
    case True
    then have "run lg (replicate 0 Server) = (Inr lg, []) \<and> wg lg = 0" by simp
    then show ?thesis by blast
  next
    case False
    then obtain l es where s: "server_iter lg = (Inr l, es)"
      using server_enabled [OF less.prems] by blast
    from server_closing [OF less.prems s]
    obtain pend' where c: "closing l pend'" and d: "wg l = 0 \<or> length pend' < length pend"
      by blast
    show ?thesis
    proof (cases "wg l = 0")
      case True
      then have "run lg (replicate 1 Server) = (Inr l, es @ []) \<and> wg l = 0" using s by simp
      then show ?thesis by blast
    next
      case False
      then have "length pend' < length pend" using d by simp
      from less.hyps [OF this c]
      obtain k lg' tr where "run l (replicate k Server) = (Inr lg', tr)" "wg lg' = 0" by blast
      then have "run lg (replicate (Suc k) Server) = (Inr lg', es @ tr) \<and> wg lg' = 0"
        using s by simp
      then show ?thesis by blast
    qed
  qed
qed

lemma run_compose:
  "run lg a = (Inr l, ta) \<Longrightarrow> run l b = (Inr l', tb) \<Longrightarrow> run lg (a @ b) = (Inr l', ta @ tb)"
  by (simp add: run_append)

lemma Close_send_enabled:
  assumes "active lg" "queue (ch lg) = []"
  shows "\<exists>lg' tr. Close_send lg = (Inr lg', tr)"
  using assms by (simp add: Close_send_def chan_send_def active_def split: prod.splits)

lemma closing_stopped:
  assumes "closing lg pend" "wg lg = 0" "run lg evs = (Inr lg', tr)"
  shows "writer lg' = writer lg \<and> wg lg' = 0"
proof -
  have p: "pend = []" using assms(1,2) by (simp add: closing_def)
  from run_closing [OF assms(1,3)]
  obtain w pend' where "writer lg' = wrote w (writer lg)" "pend = w @ pend'" "wg lg' \<le> wg lg"
    by blast
  then show ?thesis using p assms(2) by simp
qed

text \<open>
  C2. In asynchronous mode, on a new logger whose sinks accept every write: whenever
  \<open>Close\<close> returns (the exit command was sent after the schedule \<open>pre\<close>, and \<open>wg.Wait()\<close>
  came back after the schedule \<open>post\<close>), the worker has returned, the sinks hold exactly
  the lines enqueued before the exit command, in order, the worker takes no further round,
  and no later turn of any goroutine changes the sinks. And \<open>Close\<close> does return: after
  any schedule there are numbers of rounds of the worker after which the send and the
  wait both go through.
\<close>

theorem close_flushes:
  assumes "fst (NewLogger openFile stdout path lvl bufferSize flgs) = Inr lg0"
    and "flgs AND Lblocking = 0"
    and "healthy (writer lg0)"
    and "CloseSend \<notin> set pre"
  shows "(run lg0 (pre @ CloseSend # post @ [CloseWait]) = (Inr lg, tr) \<longrightarrow>
            wg lg = 0 \<and> writer lg = wrote (issued lg0 pre) (writer lg0)
            \<and> server_iter lg = (Inl Blocked, [])
            \<and> (\<forall>later lg' tr'. run lg later = (Inr lg', tr') \<longrightarrow> writer lg' = writer lg \<and> wg lg' = 0))
       \<and> (run lg0 pre = (Inr lg1, tr1) \<longrightarrow>
            (\<exists>k n lg2 tr2.
                run lg1 (replicate k Server @ CloseSend # replicate n Server @ [CloseWait]) = (Inr lg2, tr2)
                \<and> writer lg2 = wrote (issued lg0 pre) (writer lg0)))"
proof (intro conjI impI)
  have a0: "active lg0" and q0: "queue (ch lg0) = []"
    using NewLogger_active [OF assms(1-3)] by simp_all
  {
    assume r: "run lg0 (pre @ CloseSend # post @ [CloseWait]) = (Inr lg, tr)"
    obtain l1 t1 t1' where r1: "run lg0 pre = (Inr l1, t1)"
      and r1': "run l1 (CloseSend # post @ [CloseWait]) = (Inr lg, t1')"
      using run_append_Inr [OF r] by blast
    obtain l2 t2 t2' where s2: "step l1 CloseSend = (Inr l2, t2)"
      and r2: "run l2 (post @ [CloseWait]) = (Inr lg, t2')"
      using run_Cons_Inr [OF r1'] by blast
    obtain l3 t3 t3' where r3: "run l2 post = (Inr l3, t3)"
      and r3': "run l3 [CloseWait] = (Inr lg, t3')"
      using run_append_Inr [OF r2] by blast
    from run_active [OF a0 assms(4) r1]
    obtain w1 where a1: "active l1" and w1: "writer l1 = wrote w1 (writer lg0)"
      and i1: "w1 @ map buf (queue (ch l1)) = issued lg0 pre"
      using q0 by auto
    have c2: "closing l2 (map buf (queue (ch l1)))" and w2: "writer l2 = writer l1"
      using Close_send_active [OF a1] s2 by simp_all
    from run_closing [OF c2 r3]
    obtain w3 p3 where c3: "closing l3 p3" and w3: "writer l3 = wrote w3 (writer l2)"
      and p3: "map buf (queue (ch l1)) = w3 @ p3"
      by blast
    have g: "wg l3 = 0" and e: "lg = l3"
      using r3' by (auto simp: Close_wait_def split: if_splits prod.splits)
    have "p3 = []" using c3 g by (simp add: closing_def)
    then have w: "writer lg = wrote (issued lg0 pre) (writer lg0)"
      using e w3 w2 w1 p3 i1 by (simp add: wrote_wrote)
    show "wg lg = 0" using g e by simp
    show "writer lg = wrote (issued lg0 pre) (writer lg0)" using w .
    show "server_iter lg = (Inl Blocked, [])" using g e by (simp add: server_iter_def)
    show "\<forall>later lg' tr'. run lg later = (Inr lg', tr') \<longrightarrow> writer lg' = writer lg \<and> wg lg' = 0"
      using closing_stopped c3 g e by blast
  }
  {
    assume r1: "run lg0 pre = (Inr lg1, tr1)"
    from run_active [OF a0 assms(4) r1]
    obtain w1 where a1: "active lg1" and w1: "writer lg1 = wrote w1 (writer lg0)"
      and i1: "w1 @ map buf (queue (ch lg1)) = issued lg0 pre"
      using q0 by auto
    define k where "k = length (queue (ch lg1))"
    obtain l2 t2 where r2: "run lg1 (replicate k Server) = (Inr l2, t2)" and q2: "queue (ch l2) = []"
      using drain_active [OF a1 k_def] by blast
    have "CloseSend \<notin> set (replicate k Server)" by simp
    from run_active [OF a1 this r2]
    obtain w2 where a2: "active l2" and w2: "writer l2 = wrote w2 (writer lg1)"
      and i2: "w2 @ map buf (queue (ch l2)) = map buf (queue (ch lg1))"
      by auto
    obtain l3 t3 where s3: "Close_send l2 = (Inr l3, t3)"
      using Close_send_enabled [OF a2 q2] by blast
    have c3: "closing l3 []" and w3: "writer l3 = writer l2"
      using Close_send_active [OF a2 s3] q2 by simp_all
    obtain n l4 t4 where r4: "run l3 (replicate n Server) = (Inr l4, t4)" and g4: "wg l4 = 0"
      using finish_closing [OF c3] by blast
    from run_closing [OF c3 r4]
    have w4: "writer l4 = writer l3" by auto
    have r5: "run l4 [CloseWait] = (Inr l4, [])" using g4 by (simp add: Close_wait_def)
    have "run l3 (replicate n Server @ [CloseWait]) = (Inr l4, t4 @ [])"
      using run_compose [OF r4 r5] .
    then have "run l2 (CloseSend # replicate n Server @ [CloseWait]) = (Inr l4, t3 @ t4 @ [])"
      using s3 by simp
    then have "run lg1 (replicate k Server @ CloseSend # replicate n Server @ [CloseWait])
        = (Inr l4, t2 @ t3 @ t4 @ [])"
      using run_compose [OF r2] by blast
    moreover have "writer l4 = wrote (issued lg0 pre) (writer lg0)"
      using w4 w3 w2 w1 i1 i2 q2 by (simp add: wrote_wrote)
    ultimately show "\<exists>k n lg2 tr2.
        run lg1 (replicate k Server @ CloseSend # replicate n Server @ [CloseWait]) = (Inr lg2, tr2)
        \<and> writer lg2 = wrote (issued lg0 pre) (writer lg0)"
      by blast
  }
qed

theorem close_flushes_witness:
  "fst (NewLogger (\<lambda>p. Some sample_sink) sample_sink ''test.log'' Info 2 0) = Inr (sample_logger Info 2 0)
   \<and> (0::int) AND Lblocking = 0
   \<and> healthy (writer (sample_logger Info 2 0))
   \<and> CloseSend \<notin> set (sample_calls @ [Server])
   \<and> issued (sample_logger Info 2 0) (sample_calls @ [Server]) = [''[INFO]  a\<newline>'', ''[ERROR] b\<newline>'']
   \<and> (\<exists>lg tr. run (sample_logger Info 2 0)
                   ((sample_calls @ [Server]) @ CloseSend # sample_late @ [CloseWait]) = (Inr lg, tr)
         \<and> wg lg = 0
         \<and> writer lg = wrote [''[INFO]  a\<newline>'', ''[ERROR] b\<newline>''] (writer (sample_logger Info 2 0))
         \<and> map buf (queue (ch lg)) = [''[WARN]  late\<newline>'']
         \<and> server_iter lg = (Inl Blocked, []))
   \<and> (\<exists>lg1 tr1. run (sample_logger Info 2 0) (sample_calls @ [Server]) = (Inr lg1, tr1)
         \<and> (\<exists>k n lg2 tr2.
                run lg1 (replicate k Server @ CloseSend # replicate n Server @ [CloseWait]) = (Inr lg2, tr2)
                \<and> writer lg2 = wrote [''[INFO]  a\<newline>'', ''[ERROR] b\<newline>'']
                                 (writer (sample_logger Info 2 0))))"
proof -
  let ?L = "sample_logger Info 2 0"
  let ?pre = "sample_calls @ [Server]"
  let ?all = "?pre @ CloseSend # sample_late @ [CloseWait]"
  define lg1 where "lg1 = ?L\<lparr>writer := [\<lparr>data = [''[INFO]  a\<newline>''], broken = False\<rparr>],
      ch := \<lparr>cap = 2, queue = [\<lparr>cmd = cmd_write, buf = ''[ERROR] b\<newline>''\<rparr>]\<rparr>\<rparr>"
  define lg where "lg = ?L\<lparr>writer := [\<lparr>data = [''[INFO]  a\<newline>'', ''[ERROR] b\<newline>''], broken = False\<rparr>],
      ch := \<lparr>cap = 2, queue = [\<lparr>cmd = cmd_write, buf = ''[WARN]  late\<newline>''\<rparr>]\<rparr>, wg := 0\<rparr>"
  have n: "fst (NewLogger (\<lambda>p. Some sample_sink) sample_sink ''test.log'' Info 2 0) = Inr ?L"
    by code_simp
  have f: "(0::int) AND Lblocking = 0" by simp
  have h: "healthy (writer ?L)" by code_simp
  have c: "CloseSend \<notin> set ?pre" by (simp add: sample_calls_def)
  have i: "issued ?L ?pre = [''[INFO]  a\<newline>'', ''[ERROR] b\<newline>'']" by code_simp
  have "fst (run ?L ?pre) = Inr lg1" unfolding lg1_def by code_simp
  then have r1: "run ?L ?pre = (Inr lg1, snd (run ?L ?pre))" by (metis prod.collapse)
  have "fst (run ?L ?all) = Inr lg" unfolding lg_def by code_simp
  then have r: "run ?L ?all = (Inr lg, snd (run ?L ?all))" by (metis prod.collapse)
  have q: "map buf (queue (ch lg)) = [''[WARN]  late\<newline>'']"
    unfolding lg_def by code_simp
  note t = close_flushes [OF n f h c, of sample_late lg "snd (run ?L ?all)" lg1 "snd (run ?L ?pre)"]
  have "run ?L ?all = (Inr lg, snd (run ?L ?all)) \<and> wg lg = 0
      \<and> writer lg = wrote [''[INFO]  a\<newline>'', ''[ERROR] b\<newline>''] (writer ?L)
      \<and> map buf (queue (ch lg)) = [''[WARN]  late\<newline>'']
      \<and> server_iter lg = (Inl Blocked, [])"
    using t r q i by simp
  then have a: "\<exists>lg tr. run ?L ?all = (Inr lg, tr) \<and> wg lg = 0
      \<and> writer lg = wrote [''[INFO]  a\<newline>'', ''[ERROR] b\<newline>''] (writer ?L)
      \<and> map buf (queue (ch lg)) = [''[WARN]  late\<newline>'']
      \<and> server_iter lg = (Inl Blocked, [])"
    by - (rule exI [of _ lg], rule exI [of _ "snd (run ?L ?all)"], assumption)
  have "run ?L ?pre = (Inr lg1, snd (run ?L ?pre))
      \<and> (\<exists>k n lg2 tr2.
                run lg1 (replicate k Server @ CloseSend # replicate n Server @ [CloseWait]) = (Inr lg2, tr2)
                \<and> writer lg2 = wrote [''[INFO]  a\<newline>'', ''[ERROR] b\<newline>''] (writer ?L))"
    using t r1 i by simp
  then have b: "\<exists>lg1 tr1. run ?L ?pre = (Inr lg1, tr1)
      \<and> (\<exists>k n lg2 tr2.
                run lg1 (replicate k Server @ CloseSend # replicate n Server @ [CloseWait]) = (Inr lg2, tr2)
                \<and> writer lg2 = wrote [''[INFO]  a\<newline>'', ''[ERROR] b\<newline>''] (writer ?L))"
    by - (rule exI [of _ lg1], rule exI [of _ "snd (run ?L ?pre)"], assumption)
  show ?thesis using n f h c i a b by (intro conjI)
qed

end
